theory Spec2Isabelle
  imports Complex_Main "HOL-Library.Multiset"
begin

section \<open>CreateCircle: points of a unit circle in triangle-strip order\<close>

text \<open>
  A shallow embedding of \<^verbatim>\<open>CreateCircle\<close> and \<^verbatim>\<open>CreateCircle2\<close> of
  \<^verbatim>\<open>src/CreateCircle/main.cpp\<close>.

  \<^item> \<^verbatim>\<open>FloatType\<close> is modelled by \<open>real\<close>: the values are those of exact real
    arithmetic, rounding is not represented. For \<^verbatim>\<open>nrOfPoints = 0\<close> the program
    divides by zero in floating point (an infinite angle, NaN for its cosine and
    sine); HOL's division gives 0 there, so for that input the model is used for the
    control flow and the indices only, which never depend on a floating-point value.
  \<^item> \<^verbatim>\<open>unsigned int\<close> values are natural numbers with the wrap-around modulo
    \<open>2 ^ 32\<close> written out where the source subtracts or multiplies;
    \<^verbatim>\<open>nrOfPoints\<close> itself is below \<open>2 ^ 32\<close>.
  \<^item> \<^verbatim>\<open>int\<close> values are integers; an \<^verbatim>\<open>int\<close> product that does not fit
    32 bits is undefined behaviour in C++ and is an error of the model.
  \<^item> \<^verbatim>\<open>unsigned long long arrayIndex\<close> never exceeds \<open>2 ^ 34\<close> and is a natural
    number.
  \<^item> The locals \<^verbatim>\<open>x\<close> and \<^verbatim>\<open>y\<close> are the fields \<open>px\<close> and \<open>py\<close> of the state.
  \<^item> The buffer \<^verbatim>\<open>pointsOut\<close> is a store from indices to values; every access is
    recorded in a trace (most recent access first), so that the indices the program
    touches can be stated.
  \<^item> \<^verbatim>\<open>assert\<close> does nothing in a release build and aborts in a debug build; the
    model records the value of the asserted condition in the field \<open>asserted\<close>.
\<close>

subsection \<open>State\<close>

datatype error = InvalidArgument | SignedOverflow

datatype event = Read nat | Write nat

record cstate =
  pointsOut :: "nat \<Rightarrow> real"
  arrayIndex :: nat
  px :: real
  py :: real
  trace :: "event list"
  asserted :: bool

definition UINT_WRAP :: nat where
  "UINT_WRAP = 2 ^ 32"

text \<open>Subtraction of two \<^verbatim>\<open>unsigned int\<close> values (both below \<open>2 ^ 32\<close>).\<close>

definition usub :: "nat \<Rightarrow> nat \<Rightarrow> nat" where
  "usub a b = (a + UINT_WRAP - b) mod UINT_WRAP"

definition INT_MAX :: int where
  "INT_MAX = 2 ^ 31 - 1"

definition IsOdd :: "nat \<Rightarrow> bool" where
  "IsOdd number = (number mod 2 = 1)"

definition store :: "nat \<Rightarrow> real \<Rightarrow> cstate \<Rightarrow> cstate" where
  "store i v st = st\<lparr>pointsOut := (pointsOut st)(i := v), trace := Write i # trace st\<rparr>"

definition load :: "nat \<Rightarrow> cstate \<Rightarrow> real \<times> cstate" where
  "load i st = (pointsOut st i, st\<lparr>trace := Read i # trace st\<rparr>)"

subsection \<open>The angle increment\<close>

definition angle :: "nat \<Rightarrow> bool \<Rightarrow> real" where
  "angle nrOfPoints clockwise =
     (if clockwise then (pi * 2) / real nrOfPoints else (- (pi * 2)) / real nrOfPoints)"

definition cosIncr :: "nat \<Rightarrow> bool \<Rightarrow> real" where
  "cosIncr nrOfPoints clockwise = cos (angle nrOfPoints clockwise)"

definition sinIncr :: "nat \<Rightarrow> bool \<Rightarrow> real" where
  "sinIncr nrOfPoints clockwise = sin (angle nrOfPoints clockwise)"

subsection \<open>Loop bodies\<close>

text \<open>The three assignments \<^verbatim>\<open>xNew = c * x + s * y; y = s * -x + c * y; x = xNew\<close>.\<close>

definition rotate :: "real \<Rightarrow> real \<Rightarrow> cstate \<Rightarrow> cstate" where
  "rotate c s st =
     (let xNew = c * px st + s * py st;
          y' = s * - px st + c * py st
      in st\<lparr>px := xNew, py := y'\<rparr>)"

text \<open>Body of the loop of the odd branch: the rotated point, then \<open>(-x, y)\<close>.\<close>

definition odd_body :: "real \<Rightarrow> real \<Rightarrow> cstate \<Rightarrow> cstate" where
  "odd_body c s st0 =
     (let st1 = rotate c s st0;
          a = arrayIndex st1;
          st2 = store a (px st1) st1;
          st3 = store (a + 1) (py st1) st2;
          st4 = store (a + 2) (- px st1) st3;
          st5 = store (a + 3) (py st1) st4
      in st5\<lparr>arrayIndex := a + 4\<rparr>)"

text \<open>Body of the first loop of the even branch: the rotated point, then \<open>(x, -y)\<close>.\<close>

definition even_body :: "real \<Rightarrow> real \<Rightarrow> cstate \<Rightarrow> cstate" where
  "even_body c s st0 =
     (let st1 = rotate c s st0;
          a = arrayIndex st1;
          st2 = store a (px st1) st1;
          st3 = store (a + 1) (py st1) st2;
          st4 = store (a + 2) (px st1) st3;
          st5 = store (a + 3) (- py st1) st4
      in st5\<lparr>arrayIndex := a + 4\<rparr>)"

text \<open>
  Body of the second loop of the even branch of \<^verbatim>\<open>CreateCircle2\<close>: vertex \<open>i\<close> is read
  back, then \<open>(-x, y)\<close> and \<open>(-x, -y)\<close> are written.
\<close>

definition mirror_body :: "int \<Rightarrow> cstate \<Rightarrow> cstate" where
  "mirror_body i st0 =
     (let (xr, st1) = load (nat (i * 2)) st0;
          (yr, st2) = load (nat (i * 2 + 1)) st1;
          st3 = st2\<lparr>px := xr, py := yr\<rparr>;
          a = arrayIndex st3;
          st4 = store a (- xr) st3;
          st5 = store (a + 1) yr st4;
          st6 = store (a + 2) (- xr) st5;
          st7 = store (a + 3) (- yr) st6
      in st7\<lparr>arrayIndex := a + 4\<rparr>)"

subsection \<open>Loops\<close>

text \<open>\<^verbatim>\<open>for (unsigned i = ...; i < bound; ++i) body\<close>\<close>

function for_unsigned :: "(cstate \<Rightarrow> cstate) \<Rightarrow> nat \<Rightarrow> nat \<Rightarrow> cstate \<Rightarrow> cstate" where
  "for_unsigned body i bound st =
     (if i < bound then for_unsigned body (i + 1) bound (body st) else st)"
  by pat_completeness auto
termination
  by (relation "measure (\<lambda>(body, i, bound, st). bound - i)") auto

text \<open>\<^verbatim>\<open>for (int i = ...; i < bound; ++i) body\<close>\<close>

function for_int :: "(cstate \<Rightarrow> cstate) \<Rightarrow> int \<Rightarrow> int \<Rightarrow> cstate \<Rightarrow> cstate" where
  "for_int body i bound st =
     (if i < bound then for_int body (i + 1) bound (body st) else st)"
  by pat_completeness auto
termination
  by (relation "measure (\<lambda>(body, i, bound, st). nat (bound - i))") auto

text \<open>
  \<^verbatim>\<open>for (auto i = startIndex; i > 0; i -= 2)\<close> with \<^verbatim>\<open>i\<close> an \<^verbatim>\<open>int\<close>; the index
  \<^verbatim>\<open>i * 2\<close> is computed in \<^verbatim>\<open>int\<close>.
\<close>

function mirror_loop :: "int \<Rightarrow> cstate \<Rightarrow> error + cstate" where
  "mirror_loop i st =
     (if i > 0
      then (if i * 2 > INT_MAX then Inl SignedOverflow
            else mirror_loop (i - 2) (mirror_body i st))
      else Inr st)"
  by pat_completeness auto
termination
  by (relation "measure (\<lambda>(i, st). nat i)") auto

subsection \<open>The two generators\<close>

text \<open>
  The declarations up to \<^verbatim>\<open>arrayIndex = 2\<close> and the first two statements of a branch,
  \<^verbatim>\<open>x = pointsOut[0] = x0; y = pointsOut[1] = y0;\<close>. The inner assignment yields the
  array element, which the outer assignment reads: each scalar is written and then read
  back. The locals \<^verbatim>\<open>x\<close> and \<^verbatim>\<open>y\<close> are declared without a value; the record holds 0
  for them until they are assigned.
\<close>

definition start_state :: "(nat \<Rightarrow> real) \<Rightarrow> real \<Rightarrow> real \<Rightarrow> cstate" where
  "start_state buf x0 y0 =
     (let st0 = \<lparr>pointsOut = buf, arrayIndex = 2, px = 0, py = 0, trace = [],
                 asserted = True\<rparr>;
          st1 = store 0 x0 st0;
          (xr, st2) = load 0 st1;
          st3 = st2\<lparr>px := xr\<rparr>;
          st4 = store 1 y0 st3;
          (yr, st5) = load 1 st4
      in st5\<lparr>py := yr\<rparr>)"

definition last_point :: "cstate \<Rightarrow> cstate" where
  "last_point st = store (arrayIndex st + 1) 0 (store (arrayIndex st) (- 1) st)"

definition CreateCircle :: "nat \<Rightarrow> (nat \<Rightarrow> real) option \<Rightarrow> bool \<Rightarrow> error + cstate" where
  "CreateCircle nrOfPoints pointsOut_ptr clockwise =
     (case pointsOut_ptr of
        None \<Rightarrow> Inl InvalidArgument
      | Some buf \<Rightarrow>
          (let c = cosIncr nrOfPoints clockwise;
               s = sinIncr nrOfPoints clockwise;
               halfNrOfPoints = nrOfPoints div 2
           in if IsOdd nrOfPoints
              then (let st = for_unsigned (odd_body c s) 0 halfNrOfPoints (start_state buf 0 1)
                    in Inr (st\<lparr>asserted := (arrayIndex st = (nrOfPoints * 2) mod UINT_WRAP)\<rparr>))
              else (let st = for_unsigned (even_body c s) 0 (usub halfNrOfPoints 1)
                               (start_state buf 1 0);
                        st' = last_point st
                    in Inr (st'\<lparr>asserted :=
                              (arrayIndex st' + 2 = (nrOfPoints * 2) mod UINT_WRAP)\<rparr>))))"

definition CreateCircle2 :: "nat \<Rightarrow> (nat \<Rightarrow> real) option \<Rightarrow> bool \<Rightarrow> error + cstate" where
  "CreateCircle2 nrOfPoints pointsOut_ptr clockwise =
     (case pointsOut_ptr of
        None \<Rightarrow> Inl InvalidArgument
      | Some buf \<Rightarrow>
          (let c = cosIncr nrOfPoints clockwise;
               s = sinIncr nrOfPoints clockwise;
               halfNrOfPoints = int (nrOfPoints div 2)
           in if IsOdd nrOfPoints
              then (let st = for_int (odd_body c s) 0 halfNrOfPoints (start_state buf 0 1)
                    in Inr (st\<lparr>asserted := (arrayIndex st = (nrOfPoints * 2) mod UINT_WRAP)\<rparr>))
              else (let st = for_int (even_body c s) 0 (halfNrOfPoints div 2)
                               (start_state buf 1 0);
                        startIndex = (if halfNrOfPoints mod 2 \<noteq> 0 then halfNrOfPoints - 2
                                      else halfNrOfPoints - 3)
                    in case mirror_loop startIndex st of
                         Inl e \<Rightarrow> Inl e
                       | Inr st1 \<Rightarrow>
                           (let st' = last_point st1
                            in Inr (st'\<lparr>asserted :=
                                  (arrayIndex st' + 2 = (nrOfPoints * 2) mod UINT_WRAP)\<rparr>)))))"

subsection \<open>Reading the result\<close>

text \<open>The \<open>k\<close>-th emitted vertex: the scalars at \<open>2k\<close> and \<open>2k + 1\<close>.\<close>

definition point :: "cstate \<Rightarrow> nat \<Rightarrow> real \<times> real" where
  "point st k = (pointsOut st (2 * k), pointsOut st (2 * k + 1))"

definition points :: "nat \<Rightarrow> cstate \<Rightarrow> (real \<times> real) list" where
  "points n st = map (point st) [0..<n]"

text \<open>The indices written, in the order of the writes.\<close>

fun written :: "event list \<Rightarrow> nat list" where
  "written [] = []"
| "written (Write j # es) = written es @ [j]"
| "written (Read j # es) = written es"

fun read_indices :: "event list \<Rightarrow> nat list" where
  "read_indices [] = []"
| "read_indices (Read j # es) = read_indices es @ [j]"
| "read_indices (Write j # es) = read_indices es"

text \<open>
  Every read in the trace (most recent first) is of a slot that an earlier event wrote.
\<close>

fun reads_initialised :: "event list \<Rightarrow> bool" where
  "reads_initialised [] = True"
| "reads_initialised (Read j # es) = (Write j \<in> set es \<and> reads_initialised es)"
| "reads_initialised (Write j # es) = reads_initialised es"

definition zero_buffer :: "nat \<Rightarrow> real" where
  "zero_buffer = (\<lambda>i. 0)"

text \<open>The accesses of a call in the order in which they happen.\<close>

definition accesses :: "error + cstate \<Rightarrow> error + event list" where
  "accesses r = map_sum id (\<lambda>st. rev (trace st)) r"

subsection \<open>Closed forms used in the statements\<close>

text \<open>One step of the rotation recurrence on a point.\<close>

definition rot :: "real \<Rightarrow> real \<Rightarrow> real \<times> real \<Rightarrow> real \<times> real" where
  "rot c s p = (c * fst p + s * snd p, s * - fst p + c * snd p)"

text \<open>
  The four scalars that one iteration writes, as a function of the rotated point
  (odd branch, first loop of the even branch, read-back loop).
\<close>

definition odd_val :: "real \<times> real \<Rightarrow> nat \<Rightarrow> real" where
  "odd_val p r =
     (if r = 0 then fst p else if r = 1 then snd p else if r = 2 then - fst p else snd p)"

definition even_val :: "real \<times> real \<Rightarrow> nat \<Rightarrow> real" where
  "even_val p r =
     (if r = 0 then fst p else if r = 1 then snd p else if r = 2 then fst p else - snd p)"

definition mirror_val :: "real \<times> real \<Rightarrow> nat \<Rightarrow> real" where
  "mirror_val p r =
     (if r = 0 then - fst p else if r = 1 then snd p else if r = 2 then - fst p else - snd p)"

text \<open>The read-back loop without its overflow check.\<close>

function mirror_iter :: "int \<Rightarrow> cstate \<Rightarrow> cstate" where
  "mirror_iter i st = (if i > 0 then mirror_iter (i - 2) (mirror_body i st) else st)"
  by pat_completeness auto
termination
  by (relation "measure (\<lambda>(i, st). nat i)") auto

text \<open>The two mirror images of a point.\<close>

definition flipx :: "real \<times> real \<Rightarrow> real \<times> real" where
  "flipx p = (- fst p, snd p)"

definition flipy :: "real \<times> real \<Rightarrow> real \<times> real" where
  "flipy p = (fst p, - snd p)"

text \<open>Squared distance from the origin.\<close>

definition sqnorm :: "real \<times> real \<Rightarrow> real" where
  "sqnorm p = (fst p)\<^sup>2 + (snd p)\<^sup>2"

text \<open>
  The start index of the read-back loop, and the states of the branches as iterated
  loop bodies.
\<close>

definition startIndex :: "nat \<Rightarrow> int" where
  "startIndex n =
     (let halfNrOfPoints = int (n div 2)
      in if halfNrOfPoints mod 2 \<noteq> 0 then halfNrOfPoints - 2 else halfNrOfPoints - 3)"

definition odd_run :: "real \<Rightarrow> real \<Rightarrow> nat \<Rightarrow> (nat \<Rightarrow> real) \<Rightarrow> cstate" where
  "odd_run c s n buf = (odd_body c s ^^ (n div 2)) (start_state buf 0 1)"

definition even_run :: "real \<Rightarrow> real \<Rightarrow> nat \<Rightarrow> (nat \<Rightarrow> real) \<Rightarrow> cstate" where
  "even_run c s n buf = last_point ((even_body c s ^^ (n div 2 - 1)) (start_state buf 1 0))"

definition first_pass :: "real \<Rightarrow> real \<Rightarrow> nat \<Rightarrow> (nat \<Rightarrow> real) \<Rightarrow> cstate" where
  "first_pass c s n buf = (even_body c s ^^ (n div 2 div 2)) (start_state buf 1 0)"

definition even_run2 :: "real \<Rightarrow> real \<Rightarrow> nat \<Rightarrow> (nat \<Rightarrow> real) \<Rightarrow> cstate" where
  "even_run2 c s n buf = last_point (mirror_iter (startIndex n) (first_pass c s n buf))"

text \<open>The vertices of the odd and of the even branch in closed form.\<close>

definition odd_point :: "real \<Rightarrow> real \<Rightarrow> nat \<Rightarrow> real \<times> real" where
  "odd_point c s k =
     (if k = 0 then (0, 1)
      else if odd k then (rot c s ^^ ((k + 1) div 2)) (0, 1)
      else flipx ((rot c s ^^ (k div 2)) (0, 1)))"

definition even_point :: "real \<Rightarrow> real \<Rightarrow> nat \<Rightarrow> nat \<Rightarrow> real \<times> real" where
  "even_point c s n k =
     (if k = 0 then (1, 0)
      else if k = n - 1 then (- 1, 0)
      else if odd k then (rot c s ^^ ((k + 1) div 2)) (1, 0)
      else flipy ((rot c s ^^ (k div 2)) (1, 0)))"

text \<open>The scalars that the read-back loop started at \<open>i\<close> reads, in order.\<close>

function readback_reads :: "int \<Rightarrow> nat list" where
  "readback_reads i =
     (if i > 0 then [nat (i * 2), nat (i * 2 + 1)] @ readback_reads (i - 2) else [])"
  by pat_completeness auto
termination
  by (relation "measure nat") auto

declare readback_reads.simps [simp del]

declare for_unsigned.simps [simp del] for_int.simps [simp del]
  mirror_loop.simps [simp del] mirror_iter.simps [simp del]

section \<open>Loops as iterated bodies\<close>

lemma for_unsigned_funpow: "for_unsigned body i bound st = (body ^^ (bound - i)) st"
proof (induction body i bound st rule: for_unsigned.induct)
  case (1 body i bound st)
  show ?case
  proof (cases "i < bound")
    case True
    then have "bound - i = Suc (bound - (i + 1))" by simp
    with True 1 show ?thesis
      by (simp add: funpow_swap1 for_unsigned.simps [of body i])
  next
    case False
    then show ?thesis by (simp add: for_unsigned.simps [of body i])
  qed
qed

lemma for_int_funpow: "for_int body i bound st = (body ^^ nat (bound - i)) st"
proof (induction body i bound st rule: for_int.induct)
  case (1 body i bound st)
  show ?case
  proof (cases "i < bound")
    case True
    then have "nat (bound - i) = Suc (nat (bound - (i + 1)))" by simp
    with True 1 show ?thesis
      by (simp add: funpow_swap1 for_int.simps [of body i])
  next
    case False
    then show ?thesis by (simp add: for_int.simps [of body i])
  qed
qed

lemma odd_body_fields:
  "arrayIndex (odd_body c s st) = arrayIndex st + 4"
  "(px (odd_body c s st), py (odd_body c s st)) = rot c s (px st, py st)"
  "asserted (odd_body c s st) = asserted st"
  "trace (odd_body c s st) =
     Write (arrayIndex st + 3) # Write (arrayIndex st + 2) # Write (arrayIndex st + 1)
       # Write (arrayIndex st) # trace st"
  "pointsOut (odd_body c s st) =
     (pointsOut st)(arrayIndex st := fst (rot c s (px st, py st)),
                    arrayIndex st + 1 := snd (rot c s (px st, py st)),
                    arrayIndex st + 2 := - fst (rot c s (px st, py st)),
                    arrayIndex st + 3 := snd (rot c s (px st, py st)))"
  by (simp_all add: odd_body_def rotate_def store_def rot_def Let_def)

lemma even_body_fields:
  "arrayIndex (even_body c s st) = arrayIndex st + 4"
  "(px (even_body c s st), py (even_body c s st)) = rot c s (px st, py st)"
  "asserted (even_body c s st) = asserted st"
  "trace (even_body c s st) =
     Write (arrayIndex st + 3) # Write (arrayIndex st + 2) # Write (arrayIndex st + 1)
       # Write (arrayIndex st) # trace st"
  "pointsOut (even_body c s st) =
     (pointsOut st)(arrayIndex st := fst (rot c s (px st, py st)),
                    arrayIndex st + 1 := snd (rot c s (px st, py st)),
                    arrayIndex st + 2 := fst (rot c s (px st, py st)),
                    arrayIndex st + 3 := - snd (rot c s (px st, py st)))"
  by (simp_all add: even_body_def rotate_def store_def rot_def Let_def)

lemma written_app: "written (es @ es') = written es' @ written es"
  by (induction es rule: written.induct) auto

lemma upt4: "[m..<m + 4] = [m, m + 1, m + 2, m + 3]"
  by (simp add: upt_conv_Cons)

lemma iter_arrayIndex:
  fixes body :: "cstate \<Rightarrow> cstate"
  assumes "\<And>st. arrayIndex (body st) = arrayIndex st + 4"
  shows "arrayIndex ((body ^^ k) st) = arrayIndex st + 4 * k"
  by (induction k) (simp_all add: assms)

lemma iter_asserted:
  fixes body :: "cstate \<Rightarrow> cstate"
  assumes "\<And>st. asserted (body st) = asserted st"
  shows "asserted ((body ^^ k) st) = asserted st"
  by (induction k) (simp_all add: assms)

lemma iter_xy:
  fixes body :: "cstate \<Rightarrow> cstate"
  assumes "\<And>st. (px (body st), py (body st)) = rot c s (px st, py st)"
  shows "(px ((body ^^ k) st), py ((body ^^ k) st)) = (rot c s ^^ k) (px st, py st)"
  by (induction k) (simp_all add: assms)

lemma iter_written:
  fixes body :: "cstate \<Rightarrow> cstate"
  assumes "\<And>st. arrayIndex (body st) = arrayIndex st + 4"
    and "\<And>st. trace (body st) =
     Write (arrayIndex st + 3) # Write (arrayIndex st + 2) # Write (arrayIndex st + 1)
       # Write (arrayIndex st) # trace st"
  shows "written (trace ((body ^^ k) st)) =
           written (trace st) @ [arrayIndex st ..< arrayIndex st + 4 * k]"
proof (induction k)
  case 0
  show ?case by simp
next
  case (Suc k)
  let ?a = "arrayIndex st + 4 * k"
  have a: "arrayIndex ((body ^^ k) st) = ?a"
    by (rule iter_arrayIndex) (rule assms(1))
  have "[arrayIndex st ..< ?a + 4] = [arrayIndex st ..< ?a] @ [?a ..< ?a + 4]"
    by (rule upt_add_eq_append) simp
  also have "[?a ..< ?a + 4] = [?a, ?a + 1, ?a + 2, ?a + 3]"
    by (rule upt4)
  finally have e: "[arrayIndex st ..< ?a + 4] =
      [arrayIndex st ..< ?a] @ [?a, ?a + 1, ?a + 2, ?a + 3]" .
  have s: "arrayIndex st + 4 * Suc k = ?a + 4" by simp
  show ?case
    unfolding funpow.simps o_apply assms(2) a s
    using Suc e by simp
qed

lemma iter_reads:
  fixes body :: "cstate \<Rightarrow> cstate"
  assumes "\<And>st. trace (body st) =
     Write (arrayIndex st + 3) # Write (arrayIndex st + 2) # Write (arrayIndex st + 1)
       # Write (arrayIndex st) # trace st"
  shows "read_indices (trace ((body ^^ k) st)) = read_indices (trace st)"
    and "reads_initialised (trace ((body ^^ k) st)) = reads_initialised (trace st)"
  by (induction k) (simp_all add: assms)

lemma iter_Write_mem:
  fixes body :: "cstate \<Rightarrow> cstate"
  assumes "\<And>st. arrayIndex (body st) = arrayIndex st + 4"
    and "\<And>st. trace (body st) =
     Write (arrayIndex st + 3) # Write (arrayIndex st + 2) # Write (arrayIndex st + 1)
       # Write (arrayIndex st) # trace st"
  shows "Write j \<in> set (trace ((body ^^ k) st)) \<longleftrightarrow>
           Write j \<in> set (trace st) \<or> (arrayIndex st \<le> j \<and> j < arrayIndex st + 4 * k)"
proof (induction k)
  case 0
  show ?case by auto
next
  case (Suc k)
  have a: "arrayIndex ((body ^^ k) st) = arrayIndex st + 4 * k"
    by (rule iter_arrayIndex) (rule assms(1))
  show ?case
    using Suc by (simp add: assms(2) a) arith
qed

lemma iter_pointsOut:
  fixes body :: "cstate \<Rightarrow> cstate"
  assumes "\<And>st. arrayIndex (body st) = arrayIndex st + 4"
    and "\<And>st. (px (body st), py (body st)) = rot c s (px st, py st)"
    and "\<And>st. pointsOut (body st) =
     (pointsOut st)(arrayIndex st := val (rot c s (px st, py st)) 0,
                    arrayIndex st + 1 := val (rot c s (px st, py st)) 1,
                    arrayIndex st + 2 := val (rot c s (px st, py st)) 2,
                    arrayIndex st + 3 := val (rot c s (px st, py st)) 3)"
  shows "pointsOut ((body ^^ k) st) j =
     (if arrayIndex st \<le> j \<and> j < arrayIndex st + 4 * k
      then val ((rot c s ^^ ((j - arrayIndex st) div 4 + 1)) (px st, py st))
               ((j - arrayIndex st) mod 4)
      else pointsOut st j)"
proof (induction k)
  case 0
  show ?case by simp
next
  case (Suc k)
  let ?S = "(body ^^ k) st"
  have a: "arrayIndex ?S = arrayIndex st + 4 * k"
    by (rule iter_arrayIndex) (rule assms(1))
  have p: "(px ?S, py ?S) = (rot c s ^^ k) (px st, py st)"
    by (rule iter_xy) (rule assms(2))
  have dm: "(j - arrayIndex st) div 4 = k \<and> (j - arrayIndex st) mod 4 = r"
    if "j = arrayIndex st + 4 * k + r" "r < 4" for r
    using that by simp
  have "j = arrayIndex st + 4 * k + (j - (arrayIndex st + 4 * k)) \<and> j - (arrayIndex st + 4 * k) < 4"
    if "\<not> j < arrayIndex st + 4 * k" "\<not> arrayIndex st + 4 * Suc k \<le> j"
    using that by arith
  then consider (new) r where "j = arrayIndex st + 4 * k + r" "r < 4"
    | (old) "j < arrayIndex st + 4 * k" | (beyond) "arrayIndex st + 4 * Suc k \<le> j"
    by blast
  then show ?case
  proof cases
    case new
    have cond: "arrayIndex st \<le> j \<and> j < arrayIndex st + 4 * Suc k"
      using new by simp
    have r: "r = 0 \<or> r = 1 \<or> r = 2 \<or> r = 3"
      using new(2) by arith
    have lhs: "pointsOut ((body ^^ Suc k) st) j =
                 val (rot c s ((rot c s ^^ k) (px st, py st))) r"
      unfolding funpow.simps o_apply assms(3) a p
      using r by (auto simp: new(1))
    show ?thesis
      unfolding lhs using cond dm [OF new] by simp
  next
    case old
    then show ?thesis
      unfolding funpow.simps o_apply assms(3) a p
      using Suc by auto
  next
    case beyond
    then show ?thesis
      unfolding funpow.simps o_apply assms(3) a p
      using Suc by auto
  qed
qed

section \<open>The read-back loop\<close>

lemma mirror_loop_iter:
  "i * 2 \<le> INT_MAX \<Longrightarrow> mirror_loop i st = Inr (mirror_iter i st)"
proof (induction i st rule: mirror_loop.induct)
  case (1 i st)
  show ?case
  proof (cases "i > 0")
    case True
    with 1 show ?thesis
      by (simp add: mirror_loop.simps [of i] mirror_iter.simps [of i])
  next
    case False
    then show ?thesis by (simp add: mirror_loop.simps [of i] mirror_iter.simps [of i])
  qed
qed

lemma mirror_loop_overflow:
  "i * 2 > INT_MAX \<Longrightarrow> mirror_loop i st = Inl SignedOverflow"
  by (simp add: INT_MAX_def mirror_loop.simps [of i])

lemma mirror_body_fields:
  "arrayIndex (mirror_body i st) = arrayIndex st + 4"
  "asserted (mirror_body i st) = asserted st"
  "trace (mirror_body i st) =
     Write (arrayIndex st + 3) # Write (arrayIndex st + 2) # Write (arrayIndex st + 1)
       # Write (arrayIndex st) # Read (nat (i * 2 + 1)) # Read (nat (i * 2)) # trace st"
  "pointsOut (mirror_body i st) =
     (pointsOut st)(arrayIndex st := - pointsOut st (nat (i * 2)),
                    arrayIndex st + 1 := pointsOut st (nat (i * 2 + 1)),
                    arrayIndex st + 2 := - pointsOut st (nat (i * 2)),
                    arrayIndex st + 3 := - pointsOut st (nat (i * 2 + 1)))"
  by (simp_all add: mirror_body_def load_def store_def Let_def)

lemma mirror_iter_arrayIndex:
  "arrayIndex (mirror_iter i st) = arrayIndex st + 4 * nat ((i + 1) div 2)"
proof (induction i st rule: mirror_iter.induct)
  case (1 i st)
  show ?case
  proof (cases "i > 0")
    case True
    then have "nat ((i + 1) div 2) = Suc (nat ((i - 2 + 1) div 2))" by arith
    with True 1 show ?thesis
      by (simp add: mirror_iter.simps [of i] mirror_body_fields)
  next
    case False
    then have "nat ((i + 1) div 2) = 0" by arith
    with False show ?thesis by (simp add: mirror_iter.simps [of i])
  qed
qed

lemma mirror_iter_asserted: "asserted (mirror_iter i st) = asserted st"
proof (induction i st rule: mirror_iter.induct)
  case (1 i st)
  then show ?case
    by (cases "i > 0") (simp_all add: mirror_iter.simps [of i] mirror_body_fields)
qed

lemma mirror_iter_written:
  "written (trace (mirror_iter i st)) =
     written (trace st) @ [arrayIndex st ..< arrayIndex st + 4 * nat ((i + 1) div 2)]"
proof (induction i st rule: mirror_iter.induct)
  case (1 i st)
  show ?case
  proof (cases "i > 0")
    case True
    then have n: "nat ((i + 1) div 2) = Suc (nat ((i - 2 + 1) div 2))" by arith
    let ?r = "nat ((i - 2 + 1) div 2)"
    let ?a = "arrayIndex st"
    have "[?a ..< ?a + 4 + 4 * ?r] = [?a ..< ?a + 4] @ [?a + 4 ..< ?a + 4 + 4 * ?r]"
      by (rule upt_add_eq_append) simp
    then have e: "[?a ..< ?a + 4 + 4 * ?r] = [?a, ?a + 1, ?a + 2, ?a + 3] @ [?a + 4 ..< ?a + 4 + 4 * ?r]"
      by (simp only: upt4)
    have s: "?a + 4 * nat ((i + 1) div 2) = ?a + 4 + 4 * ?r"
      using n by simp
    show ?thesis
      unfolding s e
      using True 1 by (simp add: mirror_iter.simps [of i] mirror_body_fields)
  next
    case False
    then have "nat ((i + 1) div 2) = 0" by arith
    with False show ?thesis by (simp add: mirror_iter.simps [of i])
  qed
qed

lemma mirror_iter_pointsOut:
  "i * 2 + 1 < int (arrayIndex st) \<Longrightarrow>
   pointsOut (mirror_iter i st) j =
     (if arrayIndex st \<le> j \<and> j < arrayIndex st + 4 * nat ((i + 1) div 2)
      then mirror_val
             (pointsOut st (nat (2 * (i - 2 * int ((j - arrayIndex st) div 4)))),
              pointsOut st (nat (2 * (i - 2 * int ((j - arrayIndex st) div 4)) + 1)))
             ((j - arrayIndex st) mod 4)
      else pointsOut st j)"
proof (induction i st rule: mirror_iter.induct)
  case (1 i st)
  let ?a = "arrayIndex st"
  show ?case
  proof (cases "i > 0")
    case False
    then have "nat ((i + 1) div 2) = 0" by arith
    with False show ?thesis by (simp add: mirror_iter.simps [of i])
  next
    case True
    let ?st1 = "mirror_body i st"
    let ?r = "nat ((i - 2 + 1) div 2)"
    have n: "nat ((i + 1) div 2) = Suc ?r" using True by arith
    have a1: "arrayIndex ?st1 = ?a + 4" by (simp add: mirror_body_fields)
    have pre: "(i - 2) * 2 + 1 < int (arrayIndex ?st1)"
      using "1.prems" a1 by simp
    have unf: "mirror_iter i st = mirror_iter (i - 2) ?st1"
      using True by (simp add: mirror_iter.simps [of i])
    note IH = "1.IH" [OF True pre, unfolded a1]
    have low: "pointsOut ?st1 k = pointsOut st k" if "k < ?a" for k
      using that by (simp add: mirror_body_fields)
    consider (below) "j < ?a" | (first) r where "j = ?a + r" "r < 4"
      | (rest) "?a + 4 \<le> j" "j < ?a + 4 + 4 * ?r" | (beyond) "?a + 4 + 4 * ?r \<le> j"
    proof -
      have "j = ?a + (j - ?a) \<and> j - ?a < 4" if "\<not> j < ?a" "\<not> ?a + 4 \<le> j"
        using that by arith
      then show ?thesis using that by (meson not_le_imp_less)
    qed
    then show ?thesis
    proof cases
      case below
      then show ?thesis
        unfolding unf IH by (simp add: low)
    next
      case first
      have r: "r = 0 \<or> r = 1 \<or> r = 2 \<or> r = 3" using first(2) by arith
      have dm: "(j - ?a) div 4 = 0" "(j - ?a) mod 4 = r" using first by simp_all
      have "pointsOut (mirror_iter i st) j = pointsOut ?st1 j"
        unfolding unf IH using first by simp
      also have "\<dots> = mirror_val (pointsOut st (nat (2 * i)), pointsOut st (nat (2 * i + 1))) r"
        using r by (auto simp: mirror_body_fields first(1) mirror_val_def mult.commute)
      finally show ?thesis
        using first n by (simp add: dm)
    next
      case rest
      define t where "t = (j - (?a + 4)) div 4"
      have t: "(j - ?a) div 4 = Suc t" "(j - ?a) mod 4 = (j - (?a + 4)) mod 4"
        using rest(1) unfolding t_def by (simp_all add: le_div_geq le_mod_geq)
      have tr: "t < ?r" using rest unfolding t_def by (simp add: less_mult_imp_div_less mult.commute)
      have "int ?r * 2 \<le> i" using True by arith
      then have src: "0 < i - 2 - 2 * int t" "2 * (i - 2 - 2 * int t) + 1 < int ?a"
        using tr "1.prems" by simp_all
      have idx: "i - 2 * int (Suc t) = i - 2 - 2 * int t" by simp
      have "pointsOut (mirror_iter i st) j =
          mirror_val (pointsOut ?st1 (nat (2 * (i - 2 - 2 * int t))),
                      pointsOut ?st1 (nat (2 * (i - 2 - 2 * int t) + 1)))
            ((j - (?a + 4)) mod 4)"
        unfolding unf IH using rest by (simp add: t_def)
      also have "pointsOut ?st1 (nat (2 * (i - 2 - 2 * int t))) = pointsOut st (nat (2 * (i - 2 - 2 * int t)))"
        by (rule low) (use src in simp)
      also have "pointsOut ?st1 (nat (2 * (i - 2 - 2 * int t) + 1)) = pointsOut st (nat (2 * (i - 2 - 2 * int t) + 1))"
        by (rule low) (use src in simp)
      finally have fin: "pointsOut (mirror_iter i st) j =
          mirror_val (pointsOut st (nat (2 * (i - 2 - 2 * int t))),
                      pointsOut st (nat (2 * (i - 2 - 2 * int t) + 1)))
            ((j - (?a + 4)) mod 4)" .
      have cond: "?a \<le> j \<and> j < ?a + 4 * nat ((i + 1) div 2)"
        using rest n by simp
      show ?thesis
        unfolding fin by (simp only: cond t idx simp_thms if_True)
    next
      case beyond
      then show ?thesis
        unfolding unf IH using n by (simp add: mirror_body_fields)
    qed
  qed
qed

section \<open>Entry and exit of the branches\<close>

lemma start_state_fields:
  "arrayIndex (start_state buf x0 y0) = 2"
  "px (start_state buf x0 y0) = x0"
  "py (start_state buf x0 y0) = y0"
  "asserted (start_state buf x0 y0) = True"
  "trace (start_state buf x0 y0) = [Read 1, Write 1, Read 0, Write 0]"
  "pointsOut (start_state buf x0 y0) = buf(0 := x0, 1 := y0)"
  by (simp_all add: start_state_def store_def load_def Let_def)

lemma last_point_fields:
  "arrayIndex (last_point st) = arrayIndex st"
  "asserted (last_point st) = asserted st"
  "trace (last_point st) = Write (arrayIndex st + 1) # Write (arrayIndex st) # trace st"
  "pointsOut (last_point st) = (pointsOut st)(arrayIndex st := - 1, arrayIndex st + 1 := 0)"
  by (simp_all add: last_point_def store_def)

section \<open>Argument checks\<close>

lemma mirror_loop_not_InvalidArgument: "mirror_loop i st \<noteq> Inl InvalidArgument"
proof (induction i st rule: mirror_loop.induct)
  case (1 i st)
  then show ?case
    by (subst mirror_loop.simps) simp
qed

text \<open>
  The only \<open>InvalidArgument\<close> of either generator is the one for a null buffer pointer;
  the point count is never tested.
\<close>

lemma invalid_argument_iff_null:
  "(CreateCircle n p cw = Inl InvalidArgument \<longleftrightarrow> p = None) \<and>
   (CreateCircle2 n p cw = Inl InvalidArgument \<longleftrightarrow> p = None)"
  using mirror_loop_not_InvalidArgument
  by (auto simp: CreateCircle_def CreateCircle2_def Let_def
      split: option.splits sum.splits)

text \<open>
  Claim C4, at the input \<open>n = 0\<close> with a buffer. Neither generator raises
  \<open>InvalidArgument\<close>. \<^verbatim>\<open>CreateCircle2\<close> writes the scalars 0 to 3 and ends with its
  asserted condition false; in \<^verbatim>\<open>CreateCircle\<close> the loop bound
  \<^verbatim>\<open>halfNrOfPoints - 1\<close> wraps to \<open>2 ^ 32 - 1\<close>.
\<close>

theorem zero_points_not_rejected:
  "CreateCircle 0 (Some zero_buffer) True \<noteq> Inl InvalidArgument \<and>
   usub (0 div 2) 1 = 4294967295 \<and>
   accesses (CreateCircle2 0 (Some zero_buffer) True) =
     Inr [Write 0, Read 0, Write 1, Read 1, Write 2, Write 3] \<and>
   map_sum id asserted (CreateCircle2 0 (Some zero_buffer) True) = Inr False"
  by (simp add: accesses_def CreateCircle_def CreateCircle2_def IsOdd_def UINT_WRAP_def usub_def
      for_int_funpow mirror_loop.simps [of "-3"] start_state_fields last_point_fields Let_def)

section \<open>The degenerate counts 1 and 2\<close>

text \<open>
  Claim C8. For \<open>n = 1\<close> the accesses of either generator are the writes of the scalars
  0 and 1, each followed by its read-back; for \<open>n = 2\<close> they are these four accesses and
  the writes of the scalars 2 and 3. Every index read or written is below \<open>2n\<close>, and the
  read-back loop of \<^verbatim>\<open>CreateCircle2\<close> reads nothing: its start index is \<open>-1\<close>.
\<close>

theorem degenerate_counts_accesses:
  "accesses (CreateCircle 1 (Some buf) cw) = Inr [Write 0, Read 0, Write 1, Read 1] \<and>
   accesses (CreateCircle2 1 (Some buf) cw) = Inr [Write 0, Read 0, Write 1, Read 1] \<and>
   accesses (CreateCircle 2 (Some buf) cw) =
     Inr [Write 0, Read 0, Write 1, Read 1, Write 2, Write 3] \<and>
   accesses (CreateCircle2 2 (Some buf) cw) =
     Inr [Write 0, Read 0, Write 1, Read 1, Write 2, Write 3] \<and>
   startIndex 2 = - 1 \<and> readback_reads (startIndex 2) = []"
  by (simp add: accesses_def CreateCircle_def CreateCircle2_def IsOdd_def UINT_WRAP_def usub_def
      for_unsigned_funpow for_int_funpow mirror_loop.simps [of "-1"] startIndex_def
      readback_reads.simps [of "-1"] start_state_fields last_point_fields Let_def)

section \<open>The worked example with four points\<close>

text \<open>
  Claim C7, as the code has it. For \<open>n = 4\<close> and \<open>clockwise = true\<close> the loop bound
  \<^verbatim>\<open>halfNrOfPoints - 1\<close> of \<^verbatim>\<open>CreateCircle\<close> is 1: the loop body runs once, between the
  first point \<open>(1, 0)\<close> and the left-most point \<open>(-1, 0)\<close>. The call writes the eight
  scalars of four pairs, and the pair at vertex 2 is the mirror \<open>(x, -y)\<close> of the pair
  at vertex 1.
\<close>

theorem four_points_loop_runs_once:
  "usub (4 div 2) 1 = 1 \<and>
   CreateCircle 4 (Some buf) True =
     Inr ((last_point (even_body (cosIncr 4 True) (sinIncr 4 True) (start_state buf 1 0)))
            \<lparr>asserted := True\<rparr>) \<and>
   map_sum id (\<lambda>st. point st 0) (CreateCircle 4 (Some buf) True) = Inr (1, 0) \<and>
   map_sum id (\<lambda>st. point st 3) (CreateCircle 4 (Some buf) True) = Inr (- 1, 0) \<and>
   map_sum id (\<lambda>st. point st 2 = flipy (point st 1)) (CreateCircle 4 (Some buf) True) =
     Inr True \<and>
   map_sum id (\<lambda>st. written (trace st)) (CreateCircle 4 (Some buf) True) =
     Inr [0, 1, 2, 3, 4, 5, 6, 7]"
proof -
  have r: "CreateCircle 4 (Some buf) True =
     Inr ((last_point (even_body (cosIncr 4 True) (sinIncr 4 True) (start_state buf 1 0)))
            \<lparr>asserted := True\<rparr>)"
    unfolding CreateCircle_def
    by (simp add: IsOdd_def usub_def for_unsigned_funpow
        even_body_fields start_state_fields last_point_fields Let_def UINT_WRAP_def)
  show ?thesis
    unfolding r
    by (simp add: usub_def UINT_WRAP_def even_body_fields start_state_fields
        last_point_fields point_def rot_def flipy_def)
qed

text \<open>
  Claim C7 as stated fails: the loop bound is not 0, and the call writes eight scalars,
  four of them (2 to 5) in the loop.
\<close>

theorem four_points_loop_not_skipped:
  "usub (4 div 2) 1 \<noteq> 0 \<and>
   accesses (CreateCircle 4 (Some zero_buffer) True) =
     Inr [Write 0, Read 0, Write 1, Read 1, Write 2, Write 3, Write 4, Write 5,
          Write 6, Write 7]"
  by (simp add: accesses_def CreateCircle_def IsOdd_def usub_def UINT_WRAP_def for_unsigned_funpow
        even_body_fields start_state_fields last_point_fields Let_def)

section \<open>The odd branch is the same in both generators\<close>

text \<open>
  Claim C10. For every odd point count, every winding flag and every buffer,
  \<^verbatim>\<open>CreateCircle2\<close> returns the state that \<^verbatim>\<open>CreateCircle\<close> returns: the same buffer
  contents, written by the same accesses.
\<close>

theorem odd_variants_agree:
  "IsOdd n \<Longrightarrow> CreateCircle2 n (Some buf) cw = CreateCircle n (Some buf) cw"
  by (simp add: CreateCircle_def CreateCircle2_def for_unsigned_funpow for_int_funpow Let_def)

theorem odd_variants_agree_witness:
  "IsOdd 3 \<and> CreateCircle2 3 (Some zero_buffer) True = CreateCircle 3 (Some zero_buffer) True"
  using odd_variants_agree [of 3 zero_buffer True] by (simp add: IsOdd_def)

section \<open>The rotation recurrence\<close>

lemma rot_closed_odd:
  "(rot (cos a) (sin a) ^^ k) (0, 1) = (sin (real k * a), cos (real k * a))"
proof (induction k)
  case 0
  show ?case by simp
next
  case (Suc k)
  have "real (Suc k) * a = real k * a + a"
    by (simp add: algebra_simps)
  then show ?case
    using Suc by (simp add: rot_def sin_add cos_add algebra_simps)
qed

lemma rot_closed_even:
  "(rot (cos a) (sin a) ^^ k) (1, 0) = (cos (real k * a), - sin (real k * a))"
proof (induction k)
  case 0
  show ?case by simp
next
  case (Suc k)
  have "real (Suc k) * a = real k * a + a"
    by (simp add: algebra_simps)
  then show ?case
    using Suc by (simp add: rot_def sin_add cos_add algebra_simps)
qed

lemma sqnorm_rot:
  assumes "c\<^sup>2 + s\<^sup>2 = 1"
  shows "sqnorm (rot c s p) = sqnorm p"
proof -
  have "sqnorm (rot c s p) = (c\<^sup>2 + s\<^sup>2) * sqnorm p"
    by (simp add: sqnorm_def rot_def power2_eq_square algebra_simps)
  then show ?thesis using assms by simp
qed

lemma sqnorm_rot_funpow:
  assumes "c\<^sup>2 + s\<^sup>2 = 1"
  shows "sqnorm ((rot c s ^^ k) p) = sqnorm p"
  by (induction k) (simp_all add: sqnorm_rot [OF assms])

lemma rot_inverse:
  assumes "c\<^sup>2 + s\<^sup>2 = 1"
  shows "rot c (- s) (rot c s p) = p"
proof -
  have "rot c (- s) (rot c s p) = ((c\<^sup>2 + s\<^sup>2) * fst p, (c\<^sup>2 + s\<^sup>2) * snd p)"
    by (simp add: rot_def power2_eq_square algebra_simps)
  then show ?thesis using assms by simp
qed

lemma rot_flipx: "rot c (- s) (flipx p) = flipx (rot c s p)"
  by (simp add: rot_def flipx_def)

lemma rot_flipy: "rot c (- s) (flipy p) = flipy (rot c s p)"
  by (simp add: rot_def flipy_def)

lemma rot_flipx_funpow: "(rot c (- s) ^^ k) (flipx p) = flipx ((rot c s ^^ k) p)"
  by (induction k) (simp_all add: rot_flipx)

lemma rot_flipy_funpow: "(rot c (- s) ^^ k) (flipy p) = flipy ((rot c s ^^ k) p)"
  by (induction k) (simp_all add: rot_flipy)

lemma rot_back:
  assumes "c\<^sup>2 + s\<^sup>2 = 1"
  shows "(rot c (- s) ^^ k) ((rot c s ^^ (k + m)) p) = (rot c s ^^ m) p"
proof (induction k)
  case 0
  show ?case by simp
next
  case (Suc k)
  have "(rot c (- s) ^^ Suc k) ((rot c s ^^ (Suc k + m)) p) =
        (rot c (- s) ^^ k) (rot c (- s) (rot c s ((rot c s ^^ (k + m)) p)))"
    by (simp add: funpow_swap1)
  then show ?case
    using Suc by (simp add: rot_inverse [OF assms])
qed

text \<open>Half a turn: the point k steps before the left-most point mirrors the point k steps after the start.\<close>

lemma rot_half_turn:
  assumes "c\<^sup>2 + s\<^sup>2 = 1" and "(rot c s ^^ h) (1, 0) = (- 1, 0)" and "k \<le> h"
  shows "(rot c s ^^ (h - k)) (1, 0) = flipx ((rot c s ^^ k) (1, 0))"
proof -
  have "flipx ((rot c s ^^ k) (1, 0)) = (rot c (- s) ^^ k) (flipx (1, 0))"
    by (simp add: rot_flipx_funpow)
  also have "flipx (1, 0) = (rot c s ^^ (k + (h - k))) (1, 0)"
    using assms(2,3) by (simp add: flipx_def)
  also have "(rot c (- s) ^^ k) \<dots> = (rot c s ^^ (h - k)) (1, 0)"
    by (rule rot_back [OF assms(1)])
  finally show ?thesis by simp
qed

lemma cos_sin_incr: "(cosIncr n cw)\<^sup>2 + (sinIncr n cw)\<^sup>2 = 1"
  by (simp add: cosIncr_def sinIncr_def)

lemma incr_flip: "cosIncr n False = cosIncr n True" "sinIncr n False = - sinIncr n True"
  by (simp_all add: cosIncr_def sinIncr_def angle_def)

lemma half_turn_incr:
  assumes "n mod 2 = 0" "0 < n"
  shows "(rot (cosIncr n cw) (sinIncr n cw) ^^ (n div 2)) (1, 0) = (- 1, 0)"
proof -
  have "n = 2 * (n div 2)" using assms(1) by arith
  then have n: "real n = 2 * real (n div 2)"
    by (metis of_nat_mult of_nat_numeral)
  have "0 < n div 2" using assms by arith
  then have "real (n div 2) * angle n cw = (if cw then pi else - pi)"
    by (simp add: angle_def n)
  then show ?thesis
    unfolding cosIncr_def sinIncr_def rot_closed_even by simp
qed

section \<open>The branches as iterated bodies\<close>

lemma CreateCircle_odd:
  "IsOdd n \<Longrightarrow> CreateCircle n (Some buf) cw =
     Inr ((odd_run (cosIncr n cw) (sinIncr n cw) n buf)
            \<lparr>asserted := (arrayIndex (odd_run (cosIncr n cw) (sinIncr n cw) n buf)
                           = (n * 2) mod UINT_WRAP)\<rparr>)"
  by (simp add: CreateCircle_def odd_run_def for_unsigned_funpow Let_def)

lemma CreateCircle2_odd:
  "IsOdd n \<Longrightarrow> CreateCircle2 n (Some buf) cw =
     Inr ((odd_run (cosIncr n cw) (sinIncr n cw) n buf)
            \<lparr>asserted := (arrayIndex (odd_run (cosIncr n cw) (sinIncr n cw) n buf)
                           = (n * 2) mod UINT_WRAP)\<rparr>)"
  by (simp add: CreateCircle2_def odd_run_def for_int_funpow Let_def)

lemma usub_half:
  assumes "0 < n" "n mod 2 = 0" "n < 2 ^ 32"
  shows "usub (n div 2) 1 = n div 2 - 1"
proof -
  have "0 < n div 2" using assms(1,2) by arith
  then have e: "n div 2 + UINT_WRAP - 1 = (n div 2 - 1) + UINT_WRAP" by simp
  have "n div 2 - 1 \<le> n" by simp
  then have "n div 2 - 1 < UINT_WRAP"
    using assms(3) unfolding UINT_WRAP_def by (rule le_less_trans)
  then show ?thesis
    unfolding usub_def e by simp
qed

lemma CreateCircle_even:
  assumes "\<not> IsOdd n" "0 < n" "n < 2 ^ 32"
  shows "CreateCircle n (Some buf) cw =
     Inr ((even_run (cosIncr n cw) (sinIncr n cw) n buf)
            \<lparr>asserted := (arrayIndex (even_run (cosIncr n cw) (sinIncr n cw) n buf) + 2
                           = (n * 2) mod UINT_WRAP)\<rparr>)"
proof -
  have "n mod 2 = 0" using assms(1) by (simp add: IsOdd_def)
  then have "usub (n div 2) 1 = n div 2 - 1"
    using assms(2,3) by (intro usub_half)
  then show ?thesis
    using assms(1) by (simp add: CreateCircle_def even_run_def for_unsigned_funpow Let_def)
qed

lemma CreateCircle2_even:
  assumes "\<not> IsOdd n" "startIndex n * 2 \<le> INT_MAX"
  shows "CreateCircle2 n (Some buf) cw =
     Inr ((even_run2 (cosIncr n cw) (sinIncr n cw) n buf)
            \<lparr>asserted := (arrayIndex (even_run2 (cosIncr n cw) (sinIncr n cw) n buf) + 2
                           = (n * 2) mod UINT_WRAP)\<rparr>)"
proof -
  have d: "nat (int (n div 2) div 2) = n div 2 div 2" by (simp add: zdiv_int [symmetric])
  show ?thesis
    using assms(1) mirror_loop_iter [OF assms(2)]
    by (simp add: CreateCircle2_def even_run2_def first_pass_def for_int_funpow Let_def
        startIndex_def d)
qed

lemma CreateCircle2_overflow:
  assumes "\<not> IsOdd n" "startIndex n * 2 > INT_MAX"
  shows "CreateCircle2 n (Some buf) cw = Inl SignedOverflow"
  using assms(1) mirror_loop_overflow [OF assms(2)]
  by (simp add: CreateCircle2_def Let_def startIndex_def)

text \<open>The accesses of \<^verbatim>\<open>CreateCircle2\<close> for six points: one vertex is read back.\<close>

lemma six_points_accesses:
  "accesses (CreateCircle2 6 (Some buf) cw) =
     Inr [Write 0, Read 0, Write 1, Read 1, Write 2, Write 3, Write 4, Write 5,
          Read 2, Read 3, Write 6, Write 7, Write 8, Write 9, Write 10, Write 11]"
  by (simp add: accesses_def CreateCircle2_def IsOdd_def UINT_WRAP_def INT_MAX_def for_int_funpow
      mirror_loop.simps [of 1] mirror_loop.simps [of "-1"] mirror_body_fields even_body_fields
      start_state_fields last_point_fields Let_def)

lemma startIndex_fits:
  assumes "n < 2 ^ 31 + 6"
  shows "startIndex n * 2 \<le> INT_MAX"
proof -
  define h where "h = int (n div 2)"
  have h: "h \<le> 1073741826" using assms unfolding h_def by simp
  show ?thesis
  proof (cases "h mod 2 = 0")
    case True
    then show ?thesis
      using h unfolding startIndex_def INT_MAX_def Let_def h_def [symmetric] by simp
  next
    case False
    then have "h \<noteq> 1073741826" by auto
    with h have "h \<le> 1073741825" by simp
    with False show ?thesis
      unfolding startIndex_def INT_MAX_def Let_def h_def [symmetric] by simp
  qed
qed

section \<open>Cursor and write indices\<close>

lemma startIndex_eq:
  assumes "n mod 2 = 0" "0 < n"
  shows "startIndex n = 2 * int (n div 2 - 1 - n div 2 div 2) - 1"
proof -
  define h where "h = n div 2"
  have h: "0 < h" using assms unfolding h_def by arith
  have d: "int h mod 2 = int (h mod 2)" by (simp add: zmod_int)
  show ?thesis
  proof (cases "h mod 2 = 0")
    case True
    then obtain q where q: "h = 2 * q" by auto
    with h have "0 < q" by simp
    then have e: "int h - 3 = 2 * int (h - 1 - h div 2) - 1"
      unfolding q by (simp add: of_nat_diff)
    have "startIndex n = int h - 3"
      unfolding startIndex_def Let_def h_def [symmetric] d using True by simp
    then show ?thesis
      unfolding h_def [symmetric] e .
  next
    case False
    then have "h = 2 * (h div 2) + 1" by arith
    then obtain q where q: "h = 2 * q + 1" by blast
    have e: "int h - 2 = 2 * int (h - 1 - h div 2) - 1"
      unfolding q by simp
    have "startIndex n = int h - 2"
      unfolding startIndex_def Let_def h_def [symmetric] d using False by simp
    then show ?thesis
      unfolding h_def [symmetric] e .
  qed
qed

lemma upt_join: "[0..<a] @ [a..<a + m] = [0..<a + m]"
  by (rule upt_add_eq_append [symmetric]) simp

lemma passes_add:
  fixes n :: nat
  assumes "n mod 2 = 0" "0 < n"
  shows "n div 2 div 2 + (n div 2 - 1 - n div 2 div 2) = n div 2 - 1"
    and "n div 2 - 1 - n div 2 div 2 \<le> n div 2 div 2"
  using assms by arith+

lemma mirror_iter_odd_start:
  "nat ((2 * int r - 1 + 1) div 2) = r"
  by simp

lemma odd_run_arrayIndex: "arrayIndex (odd_run c s n buf) = 2 + 4 * (n div 2)"
  unfolding odd_run_def
  by (simp add: iter_arrayIndex [where body = "odd_body c s"] odd_body_fields start_state_fields)

lemma first_pass_arrayIndex: "arrayIndex (first_pass c s n buf) = 2 + 4 * (n div 2 div 2)"
  unfolding first_pass_def
  by (simp add: iter_arrayIndex [where body = "even_body c s"] even_body_fields start_state_fields)

lemma even_run_arrayIndex: "arrayIndex (even_run c s n buf) = 2 + 4 * (n div 2 - 1)"
  unfolding even_run_def
  by (simp add: iter_arrayIndex [where body = "even_body c s"] even_body_fields
      start_state_fields last_point_fields)

lemma even_run2_arrayIndex:
  assumes "n mod 2 = 0" "0 < n"
  shows "arrayIndex (even_run2 c s n buf) = 2 + 4 * (n div 2 - 1)"
proof -
  have "arrayIndex (even_run2 c s n buf) =
        2 + 4 * (n div 2 div 2) + 4 * (n div 2 - 1 - n div 2 div 2)"
    unfolding even_run2_def startIndex_eq [OF assms]
    by (simp add: last_point_fields mirror_iter_arrayIndex first_pass_arrayIndex)
  then show ?thesis
    using passes_add(1) [OF assms] by simp
qed

lemma start_state_written: "written (trace (start_state buf x0 y0)) = [0..<2]"
  by (simp add: start_state_fields upt_rec)

lemma last_point_written:
  "written (trace st) = [0..<arrayIndex st] \<Longrightarrow>
   written (trace (last_point st)) = [0..<arrayIndex st + 2]"
  by (simp add: last_point_fields)

lemma odd_run_written: "written (trace (odd_run c s n buf)) = [0..<2 + 4 * (n div 2)]"
proof -
  have "written (trace (odd_run c s n buf)) = [0..<2] @ [2..<2 + 4 * (n div 2)]"
    unfolding odd_run_def
    by (simp add: iter_written [where body = "odd_body c s"] odd_body_fields
        start_state_fields(1) start_state_written)
  then show ?thesis
    unfolding upt_join .
qed

lemma first_pass_written:
  "written (trace (first_pass c s n buf)) = [0..<2 + 4 * (n div 2 div 2)]"
proof -
  have "written (trace (first_pass c s n buf)) = [0..<2] @ [2..<2 + 4 * (n div 2 div 2)]"
    unfolding first_pass_def
    by (simp add: iter_written [where body = "even_body c s"] even_body_fields
        start_state_fields(1) start_state_written)
  then show ?thesis
    unfolding upt_join .
qed

lemma even_run_written:
  "written (trace (even_run c s n buf)) = [0..<2 + 4 * (n div 2 - 1) + 2]"
proof -
  let ?S = "(even_body c s ^^ (n div 2 - 1)) (start_state buf 1 0)"
  have a: "arrayIndex ?S = 2 + 4 * (n div 2 - 1)"
    by (simp add: iter_arrayIndex [where body = "even_body c s"] even_body_fields start_state_fields)
  have "written (trace ?S) = [0..<2] @ [2..<2 + 4 * (n div 2 - 1)]"
    by (simp add: iter_written [where body = "even_body c s"] even_body_fields
        start_state_fields(1) start_state_written)
  then have "written (trace ?S) = [0..<arrayIndex ?S]"
    unfolding a upt_join .
  then have "written (trace (last_point ?S)) = [0..<arrayIndex ?S + 2]"
    by (rule last_point_written)
  then show ?thesis
    unfolding even_run_def a .
qed

lemma even_run2_written:
  assumes "n mod 2 = 0" "0 < n"
  shows "written (trace (even_run2 c s n buf)) = [0..<2 + 4 * (n div 2 - 1) + 2]"
proof -
  let ?F = "first_pass c s n buf"
  let ?M = "mirror_iter (startIndex n) ?F"
  let ?q = "n div 2 div 2"
  let ?r = "n div 2 - 1 - n div 2 div 2"
  have a: "arrayIndex ?M = 2 + 4 * (n div 2 - 1)"
    using even_run2_arrayIndex [OF assms, of c s buf]
    by (simp add: even_run2_def last_point_fields)
  have "written (trace ?M) = [0..<2 + 4 * ?q] @ [2 + 4 * ?q ..< 2 + 4 * ?q + 4 * ?r]"
    unfolding mirror_iter_written first_pass_written first_pass_arrayIndex
      startIndex_eq [OF assms] mirror_iter_odd_start ..
  also have "\<dots> = [0..<2 + 4 * ?q + 4 * ?r]"
    by (rule upt_join)
  also have "2 + 4 * ?q + 4 * ?r = arrayIndex ?M"
    unfolding a using passes_add(1) [OF assms] by simp
  finally have "written (trace (last_point ?M)) = [0..<arrayIndex ?M + 2]"
    by (rule last_point_written)
  then show ?thesis
    unfolding even_run2_def a .
qed

lemma double_fits:
  assumes "n < 2 ^ 31"
  shows "(n * 2) mod UINT_WRAP = 2 * n"
proof -
  have "n * 2 < UINT_WRAP" using assms unfolding UINT_WRAP_def by simp
  then show ?thesis by simp
qed

lemma odd_cursor: "IsOdd n \<Longrightarrow> 2 + 4 * (n div 2) = 2 * n"
  unfolding IsOdd_def by arith

lemma even_cursor:
  assumes "\<not> IsOdd n" "1 \<le> n"
  shows "2 + 4 * (n div 2 - 1) = 2 * n - 2" "2 + 4 * (n div 2 - 1) + 2 = 2 * n"
    "n mod 2 = 0" "0 < n"
  using assms unfolding IsOdd_def by arith+

lemma read_indices_start: "read_indices (trace (start_state buf x0 y0)) = [0, 1]"
  by (simp add: start_state_fields)

lemma odd_run_reads: "read_indices (trace (odd_run c s n buf)) = [0, 1]"
  unfolding odd_run_def
  by (simp add: iter_reads(1) [where body = "odd_body c s"] odd_body_fields read_indices_start)

lemma even_run_reads: "read_indices (trace (even_run c s n buf)) = [0, 1]"
  unfolding even_run_def
  by (simp add: last_point_fields iter_reads(1) [where body = "even_body c s"] even_body_fields
      read_indices_start)

text \<open>
  The write cursor where nothing overflows. For every \<open>n \<ge> 1\<close> and a buffer,
  \<^verbatim>\<open>CreateCircle\<close> completes and writes exactly the scalars \<open>0, 1, \<dots>, 2n - 1\<close>, each
  once and in this order; the write cursor is \<open>2n\<close> after the loop for odd \<open>n\<close> and
  \<open>2n - 2\<close> before the left-most point for even \<open>n\<close>, and the asserted condition holds
  when \<open>n < 2 ^ 31\<close>. The same holds for \<^verbatim>\<open>CreateCircle2\<close> when \<open>n\<close> is odd or
  \<open>n < 2 ^ 31 + 6\<close>.
\<close>

theorem cursor_reaches_2n:
  assumes "1 \<le> n" and "n < 2 ^ 32"
  shows "(\<exists>st. CreateCircle n (Some buf) cw = Inr st \<and> written (trace st) = [0..<2 * n] \<and>
            arrayIndex st = (if IsOdd n then 2 * n else 2 * n - 2) \<and>
            (n < 2 ^ 31 \<longrightarrow> asserted st)) \<and>
         (IsOdd n \<or> n < 2 ^ 31 + 6 \<longrightarrow>
           (\<exists>st. CreateCircle2 n (Some buf) cw = Inr st \<and> written (trace st) = [0..<2 * n] \<and>
              arrayIndex st = (if IsOdd n then 2 * n else 2 * n - 2) \<and>
              (n < 2 ^ 31 \<longrightarrow> asserted st)))"
proof (cases "IsOdd n")
  case True
  have r: "written (trace (odd_run c s n buf)) = [0..<2 * n]"
    "arrayIndex (odd_run c s n buf) = 2 * n" for c s
    unfolding odd_run_written odd_run_arrayIndex odd_cursor [OF True] by (rule refl)+
  show ?thesis
    unfolding CreateCircle_odd [OF True] CreateCircle2_odd [OF True]
    using True by (simp add: r double_fits)
next
  case False
  note e = even_cursor [OF False assms(1)]
  have p: "2 * n - 2 + 2 = 2 * n" using assms(1) by simp
  have r: "written (trace (even_run c s n buf)) = [0..<2 * n]"
    "arrayIndex (even_run c s n buf) = 2 * n - 2"
    "written (trace (even_run2 c s n buf)) = [0..<2 * n]"
    "arrayIndex (even_run2 c s n buf) = 2 * n - 2" for c s
    unfolding even_run_written even_run_arrayIndex even_run2_written [OF e(3,4)]
        even_run2_arrayIndex [OF e(3,4)] e(1) p by (rule refl)+
  have 2: "\<exists>st. CreateCircle2 n (Some buf) cw = Inr st \<and> written (trace st) = [0..<2 * n] \<and>
              arrayIndex st = 2 * n - 2 \<and> (n < 2 ^ 31 \<longrightarrow> asserted st)"
    if "n < 2 ^ 31 + 6"
    unfolding CreateCircle2_even [OF False startIndex_fits [OF that]]
    using p by (simp add: r double_fits)
  from p 2 show ?thesis
    unfolding CreateCircle_even [OF False e(4) assms(2)]
    using False by (simp add: r double_fits)
qed

theorem cursor_reaches_2n_witness:
  "(1::nat) \<le> 4 \<and> (4::nat) < 2 ^ 32 \<and>
   (\<exists>st. CreateCircle 4 (Some zero_buffer) True = Inr st \<and> written (trace st) = [0..<2 * 4] \<and>
            arrayIndex st = 2 * 4 - 2 \<and> asserted st) \<and>
   (\<exists>st. CreateCircle2 4 (Some zero_buffer) True = Inr st \<and> written (trace st) = [0..<2 * 4] \<and>
            arrayIndex st = 2 * 4 - 2 \<and> asserted st)"
  using cursor_reaches_2n [of 4 zero_buffer True] by (simp add: IsOdd_def)

text \<open>
  Claim C1, at the input \<open>n = 2 ^ 31 + 1\<close>. The write cursor of either generator is
  \<open>2n = 2 ^ 32 + 2\<close>, as the claim says, but the assertion compares it with
  \<^verbatim>\<open>nrOfPoints * 2\<close> computed in \<^verbatim>\<open>unsigned int\<close>, which is 2: the asserted
  post-condition does not hold.
\<close>

theorem assertion_fails_for_large_count:
  "map_sum id arrayIndex (CreateCircle 2147483649 (Some zero_buffer) True) = Inr 4294967298 \<and>
   map_sum id asserted (CreateCircle 2147483649 (Some zero_buffer) True) = Inr False \<and>
   map_sum id arrayIndex (CreateCircle2 2147483649 (Some zero_buffer) True) = Inr 4294967298 \<and>
   map_sum id asserted (CreateCircle2 2147483649 (Some zero_buffer) True) = Inr False \<and>
   (2147483649 * 2) mod UINT_WRAP = 2"
proof -
  have o: "IsOdd 2147483649" by (simp add: IsOdd_def)
  show ?thesis
    unfolding CreateCircle_odd [OF o] CreateCircle2_odd [OF o]
    by (simp add: odd_run_arrayIndex UINT_WRAP_def)
qed

section \<open>Reads of the read-back loop\<close>

lemma mirror_iter_Write_mono:
  "Write j \<in> set (trace st) \<Longrightarrow> Write j \<in> set (trace (mirror_iter i st))"
proof (induction i st rule: mirror_iter.induct)
  case (1 i st)
  show ?case
  proof (cases "i > 0")
    case True
    have "Write j \<in> set (trace (mirror_body i st))"
      using "1.prems" by (simp add: mirror_body_fields)
    with True "1.IH" show ?thesis
      by (simp add: mirror_iter.simps [of i])
  next
    case False
    with "1.prems" show ?thesis by (simp add: mirror_iter.simps [of i])
  qed
qed

lemma mirror_iter_reads_initialised:
  assumes "reads_initialised (trace st)"
    and "\<And>j. 2 \<le> int j \<Longrightarrow> int j \<le> i * 2 + 1 \<Longrightarrow> Write j \<in> set (trace st)"
  shows "reads_initialised (trace (mirror_iter i st))"
  using assms
proof (induction i st rule: mirror_iter.induct)
  case (1 i st)
  show ?case
  proof (cases "i > 0")
    case True
    have w: "Write (nat (i * 2)) \<in> set (trace st)" "Write (nat (i * 2 + 1)) \<in> set (trace st)"
      using True by (auto intro!: "1.prems"(2))
    have a: "reads_initialised (trace (mirror_body i st))"
      using "1.prems"(1) w by (simp add: mirror_body_fields)
    have b: "Write j \<in> set (trace (mirror_body i st))"
      if "2 \<le> int j" "int j \<le> (i - 2) * 2 + 1" for j
    proof -
      have "Write j \<in> set (trace st)"
        using that by (intro "1.prems"(2)) simp_all
      then show ?thesis by (simp add: mirror_body_fields)
    qed
    from "1.IH" [OF True a b] True show ?thesis
      by (simp add: mirror_iter.simps [of i])
  next
    case False
    with "1.prems" show ?thesis by (simp add: mirror_iter.simps [of i])
  qed
qed

lemma mirror_iter_read_indices:
  "read_indices (trace (mirror_iter i st)) = read_indices (trace st) @ readback_reads i"
proof (induction i st rule: mirror_iter.induct)
  case (1 i st)
  show ?case
  proof (cases "i > 0")
    case True
    have "read_indices (trace (mirror_body i st)) =
            read_indices (trace st) @ [nat (i * 2), nat (i * 2 + 1)]"
      by (simp add: mirror_body_fields)
    with True "1.IH" show ?thesis
      by (simp add: mirror_iter.simps [of i] readback_reads.simps [of i])
  next
    case False
    then show ?thesis
      by (simp add: mirror_iter.simps [of i] readback_reads.simps [of i])
  qed
qed

lemma readback_reads_vertex:
  assumes "j \<in> set (readback_reads i)"
  shows "\<exists>v. 0 < v \<and> v \<le> i \<and> v mod 2 = i mod 2 \<and> (j = nat (v * 2) \<or> j = nat (v * 2 + 1))"
  using assms
proof (induction i rule: readback_reads.induct)
  case (1 i)
  show ?case
  proof (cases "i > 0")
    case True
    from "1.prems" True
    consider (first) "j = nat (i * 2) \<or> j = nat (i * 2 + 1)"
      | (rest) "j \<in> set (readback_reads (i - 2))"
      by (auto simp: readback_reads.simps [of i])
    then show ?thesis
    proof cases
      case first
      with True show ?thesis by blast
    next
      case rest
      from "1.IH" [OF True rest] obtain v where v: "0 < v" "v \<le> i - 2"
          "v mod 2 = (i - 2) mod 2" "j = nat (v * 2) \<or> j = nat (v * 2 + 1)"
        by blast
      have "v mod 2 = i mod 2" using v(3) by (simp add: mod_diff_eq [symmetric] del: mod_diff_eq)
      moreover have "v \<le> i" using v(2) by simp
      ultimately show ?thesis using v(1,4) by blast
    qed
  next
    case False
    with "1.prems" show ?thesis by (simp add: readback_reads.simps [of i])
  qed
qed

lemma first_pass_trace:
  "reads_initialised (trace (first_pass c s n buf))"
  "read_indices (trace (first_pass c s n buf)) = [0, 1]"
  "2 \<le> j \<Longrightarrow> j < 2 + 4 * (n div 2 div 2) \<Longrightarrow> Write j \<in> set (trace (first_pass c s n buf))"
  unfolding first_pass_def
  by (simp_all add: iter_reads [where body = "even_body c s"]
      iter_Write_mem [where body = "even_body c s"] even_body_fields start_state_fields)

lemma even_run2_reads:
  assumes "n mod 2 = 0" "0 < n"
  shows "reads_initialised (trace (even_run2 c s n buf))"
    and "read_indices (trace (even_run2 c s n buf)) = [0, 1] @ readback_reads (startIndex n)"
    and "j \<in> set (readback_reads (startIndex n)) \<Longrightarrow>
           odd (j div 2) \<and> 1 \<le> j div 2 \<and> int (j div 2) \<le> startIndex n \<and>
           j div 2 \<le> 2 * (n div 2 div 2)"
proof -
  let ?F = "first_pass c s n buf"
  let ?q = "n div 2 div 2"
  let ?r = "n div 2 - 1 - n div 2 div 2"
  note s = startIndex_eq [OF assms]
  have rq: "?r \<le> ?q" by (rule passes_add(2) [OF assms])
  have "reads_initialised (trace (mirror_iter (startIndex n) ?F))"
  proof (rule mirror_iter_reads_initialised)
    show "reads_initialised (trace ?F)" by (rule first_pass_trace)
  next
    fix j
    assume "2 \<le> int j" "int j \<le> startIndex n * 2 + 1"
    then have "2 \<le> j" "j < 2 + 4 * ?q"
      using rq unfolding s by simp_all
    then show "Write j \<in> set (trace ?F)" by (rule first_pass_trace)
  qed
  then show "reads_initialised (trace (even_run2 c s n buf))"
    by (simp add: even_run2_def last_point_fields)
  show "read_indices (trace (even_run2 c s n buf)) = [0, 1] @ readback_reads (startIndex n)"
    by (simp add: even_run2_def last_point_fields mirror_iter_read_indices first_pass_trace(2))
  assume "j \<in> set (readback_reads (startIndex n))"
  from readback_reads_vertex [OF this]
  obtain v where v: "0 < v" "v \<le> startIndex n" "v mod 2 = startIndex n mod 2"
      "j = nat (v * 2) \<or> j = nat (v * 2 + 1)"
    by blast
  have "startIndex n mod 2 = 1" unfolding s by presburger
  with v(3) have vo: "odd v" by presburger
  have jv: "int (j div 2) = v" using v(1,4) by auto
  then have "odd (int (j div 2))" using vo by simp
  then have "odd (j div 2)" by simp
  moreover have "1 \<le> j div 2" using jv v(1) by simp
  moreover have "int (j div 2) \<le> startIndex n" using jv v(2) by simp
  moreover have "int (j div 2) \<le> 2 * int ?q" using jv v(2) rq unfolding s by simp
  then have "j div 2 \<le> 2 * ?q" by simp
  ultimately show "odd (j div 2) \<and> 1 \<le> j div 2 \<and> int (j div 2) \<le> startIndex n \<and>
           j div 2 \<le> 2 * ?q"
    by blast
qed

text \<open>
  The reads of \<^verbatim>\<open>CreateCircle2\<close> below the overflow of the read index. For every even
  \<open>n\<close> with \<open>2 \<le> n < 2 ^ 31 + 6\<close> the call completes. Its reads are the read-backs of
  the scalars 0 and 1 of the first point, followed by the reads of the second pass;
  every scalar read was written earlier in the call and no scalar is written twice.
  Every scalar the second pass reads belongs to a vertex \<open>i\<close> that is odd, with
  \<open>1 \<le> i \<le> startIndex\<close> and \<open>i \<le> 2 * (halfN div 2)\<close>, a vertex of the first pass.
\<close>

theorem readback_reads_first_pass:
  assumes "n mod 2 = 0" and "2 \<le> n" and "n < 2 ^ 31 + 6"
  shows "\<exists>st. CreateCircle2 n (Some buf) cw = Inr st \<and>
           reads_initialised (trace st) \<and> distinct (written (trace st)) \<and>
           read_indices (trace st) = [0, 1] @ readback_reads (startIndex n) \<and>
           (\<forall>j \<in> set (readback_reads (startIndex n)).
              odd (j div 2) \<and> 1 \<le> j div 2 \<and> int (j div 2) \<le> startIndex n \<and>
              j div 2 \<le> 2 * (n div 2 div 2))"
proof -
  have e: "\<not> IsOdd n" using assms(1) by (simp add: IsOdd_def)
  have p: "0 < n" using assms(2) by simp
  have "distinct [0..<2 + 4 * (n div 2 - 1) + 2]" by (rule distinct_upt)
  moreover have "\<forall>j \<in> set (readback_reads (startIndex n)).
              odd (j div 2) \<and> 1 \<le> j div 2 \<and> int (j div 2) \<le> startIndex n \<and>
              j div 2 \<le> 2 * (n div 2 div 2)"
    using even_run2_reads(3) [OF assms(1) p] by blast
  ultimately show ?thesis
    unfolding CreateCircle2_even [OF e startIndex_fits [OF assms(3)]]
    by (simp add: even_run2_written [OF assms(1) p] even_run2_reads(1,2) [OF assms(1) p])
qed

theorem readback_reads_first_pass_witness:
  "(6::nat) mod 2 = 0 \<and> (2::nat) \<le> 6 \<and> (6::nat) < 2 ^ 31 + 6 \<and>
   (\<exists>st. CreateCircle2 6 (Some zero_buffer) True = Inr st \<and>
           reads_initialised (trace st) \<and> distinct (written (trace st)) \<and>
           read_indices (trace st) = [0, 1] @ readback_reads (startIndex 6) \<and>
           (\<forall>j \<in> set (readback_reads (startIndex 6)).
              odd (j div 2) \<and> 1 \<le> j div 2 \<and> int (j div 2) \<le> startIndex 6 \<and>
              j div 2 \<le> 2 * (6 div 2 div 2)))"
  using readback_reads_first_pass [of 6 zero_buffer True] by simp

text \<open>
  Claim C9, at the input \<open>n = 2 ^ 31 + 6\<close>. The start index of the second pass is
  \<open>2 ^ 30 + 1\<close>, and the index \<^verbatim>\<open>i * 2\<close> of its first read, \<open>2 ^ 31 + 2\<close>, does not
  fit an \<^verbatim>\<open>int\<close>: the product overflows, and the read does not address the slot of
  vertex \<open>i\<close>.
\<close>

theorem readback_index_overflows:
  "startIndex 2147483654 = 1073741825 \<and> INT_MAX < startIndex 2147483654 * 2 \<and>
   CreateCircle2 2147483654 (Some zero_buffer) True = Inl SignedOverflow"
proof -
  have e: "\<not> IsOdd 2147483654" by (simp add: IsOdd_def)
  have s: "startIndex 2147483654 = 1073741825"
    by (simp add: startIndex_def)
  then have o: "startIndex 2147483654 * 2 > INT_MAX"
    by (simp add: INT_MAX_def)
  from s o CreateCircle2_overflow [OF e o] show ?thesis by simp
qed

section \<open>The vertices written by the loops\<close>

lemma dm4:
  fixes m r :: nat
  assumes "r < 4"
  shows "(4 * m + r) div 4 = m" "(4 * m + r) mod 4 = r"
  using assms by simp_all

lemma iter_point:
  fixes body :: "cstate \<Rightarrow> cstate" and val :: "real \<times> real \<Rightarrow> nat \<Rightarrow> real"
  assumes "\<And>st. arrayIndex (body st) = arrayIndex st + 4"
    and "\<And>st. (px (body st), py (body st)) = rot c s (px st, py st)"
    and "\<And>st. pointsOut (body st) =
     (pointsOut st)(arrayIndex st := val (rot c s (px st, py st)) 0,
                    arrayIndex st + 1 := val (rot c s (px st, py st)) 1,
                    arrayIndex st + 2 := val (rot c s (px st, py st)) 2,
                    arrayIndex st + 3 := val (rot c s (px st, py st)) 3)"
    and "arrayIndex st = 2" and "m < k"
  shows "point ((body ^^ k) st) (2 * m + 1) =
           (val ((rot c s ^^ (m + 1)) (px st, py st)) 0, val ((rot c s ^^ (m + 1)) (px st, py st)) 1)"
    and "point ((body ^^ k) st) (2 * m + 2) =
           (val ((rot c s ^^ (m + 1)) (px st, py st)) 2, val ((rot c s ^^ (m + 1)) (px st, py st)) 3)"
proof -
  note P = iter_pointsOut [of body c s val, OF assms(1,2,3), of k st, unfolded assms(4)]
  have e: "2 * (2 * m + 1) = 4 * m + 2" "4 * m + 2 + 1 = 4 * m + 3"
    "2 * (2 * m + 2) = 4 * m + 4" "4 * m + 4 + 1 = 4 * m + 5"
    by simp_all
  have d: "(4 * m + 2 - 2) div 4 = m" "(4 * m + 2 - 2) mod 4 = 0"
    "(4 * m + 3 - 2) div 4 = m" "(4 * m + 3 - 2) mod 4 = 1"
    "(4 * m + 4 - 2) div 4 = m" "(4 * m + 4 - 2) mod 4 = 2"
    "(4 * m + 5 - 2) div 4 = m" "(4 * m + 5 - 2) mod 4 = 3"
    using dm4 [of 0 m] dm4 [of 1 m] dm4 [of 2 m] dm4 [of 3 m] by simp_all
  have r: "2 \<le> 4 * m + 2" "4 * m + 2 < 2 + 4 * k"
    "2 \<le> 4 * m + 3" "4 * m + 3 < 2 + 4 * k"
    "2 \<le> 4 * m + 4" "4 * m + 4 < 2 + 4 * k"
    "2 \<le> 4 * m + 5" "4 * m + 5 < 2 + 4 * k"
    using assms(5) by simp_all
  show "point ((body ^^ k) st) (2 * m + 1) =
           (val ((rot c s ^^ (m + 1)) (px st, py st)) 0, val ((rot c s ^^ (m + 1)) (px st, py st)) 1)"
    unfolding point_def e P by (simp only: r d simp_thms if_True)
  show "point ((body ^^ k) st) (2 * m + 2) =
           (val ((rot c s ^^ (m + 1)) (px st, py st)) 2, val ((rot c s ^^ (m + 1)) (px st, py st)) 3)"
    unfolding point_def e P by (simp only: r d simp_thms if_True)
qed

lemma iter_point_low:
  fixes body :: "cstate \<Rightarrow> cstate" and val :: "real \<times> real \<Rightarrow> nat \<Rightarrow> real"
  assumes "\<And>st. arrayIndex (body st) = arrayIndex st + 4"
    and "\<And>st. (px (body st), py (body st)) = rot c s (px st, py st)"
    and "\<And>st. pointsOut (body st) =
     (pointsOut st)(arrayIndex st := val (rot c s (px st, py st)) 0,
                    arrayIndex st + 1 := val (rot c s (px st, py st)) 1,
                    arrayIndex st + 2 := val (rot c s (px st, py st)) 2,
                    arrayIndex st + 3 := val (rot c s (px st, py st)) 3)"
    and "arrayIndex st = 2"
  shows "point ((body ^^ k) st) 0 = point st 0"
  unfolding point_def
  by (simp add: iter_pointsOut [of body c s val, OF assms(1,2,3), of k st, unfolded assms(4)])

lemma odd_run_points:
  "point (odd_run c s n buf) 0 = (0, 1)"
  "m < n div 2 \<Longrightarrow> point (odd_run c s n buf) (2 * m + 1) = (rot c s ^^ (m + 1)) (0, 1)"
  "m < n div 2 \<Longrightarrow> point (odd_run c s n buf) (2 * m + 2) = flipx ((rot c s ^^ (m + 1)) (0, 1))"
proof -
  have v: "pointsOut (odd_body c s st) =
     (pointsOut st)(arrayIndex st := odd_val (rot c s (px st, py st)) 0,
                    arrayIndex st + 1 := odd_val (rot c s (px st, py st)) 1,
                    arrayIndex st + 2 := odd_val (rot c s (px st, py st)) 2,
                    arrayIndex st + 3 := odd_val (rot c s (px st, py st)) 3)" for st
    by (simp add: odd_body_fields odd_val_def)
  note ip = iter_point [of "odd_body c s" c s odd_val, OF odd_body_fields(1,2) v]
  show "point (odd_run c s n buf) 0 = (0, 1)"
    unfolding odd_run_def
      iter_point_low [of "odd_body c s" c s odd_val, OF odd_body_fields(1,2) v start_state_fields(1)]
    by (simp add: point_def start_state_fields)
  show "point (odd_run c s n buf) (2 * m + 1) = (rot c s ^^ (m + 1)) (0, 1)" if "m < n div 2"
    unfolding odd_run_def ip(1) [OF start_state_fields(1) that]
    by (simp add: start_state_fields odd_val_def)
  show "point (odd_run c s n buf) (2 * m + 2) = flipx ((rot c s ^^ (m + 1)) (0, 1))" if "m < n div 2"
    unfolding odd_run_def ip(2) [OF start_state_fields(1) that]
    by (simp add: start_state_fields odd_val_def flipx_def)
qed

lemma last_point_points:
  "2 * k + 1 < arrayIndex st \<Longrightarrow> point (last_point st) k = point st k"
  "arrayIndex st = 2 * k \<Longrightarrow> point (last_point st) k = (- 1, 0)"
  by (simp_all add: point_def last_point_fields)

lemma even_body_val:
  "pointsOut (even_body c s st) =
     (pointsOut st)(arrayIndex st := even_val (rot c s (px st, py st)) 0,
                    arrayIndex st + 1 := even_val (rot c s (px st, py st)) 1,
                    arrayIndex st + 2 := even_val (rot c s (px st, py st)) 2,
                    arrayIndex st + 3 := even_val (rot c s (px st, py st)) 3)"
  by (simp add: even_body_fields even_val_def)

lemma even_iter_points:
  "point ((even_body c s ^^ k) (start_state buf 1 0)) 0 = (1, 0)"
  "m < k \<Longrightarrow> point ((even_body c s ^^ k) (start_state buf 1 0)) (2 * m + 1) =
     (rot c s ^^ (m + 1)) (1, 0)"
  "m < k \<Longrightarrow> point ((even_body c s ^^ k) (start_state buf 1 0)) (2 * m + 2) =
     flipy ((rot c s ^^ (m + 1)) (1, 0))"
proof -
  note ip = iter_point [of "even_body c s" c s even_val, OF even_body_fields(1,2) even_body_val]
  show "point ((even_body c s ^^ k) (start_state buf 1 0)) 0 = (1, 0)"
    unfolding iter_point_low [of "even_body c s" c s even_val,
        OF even_body_fields(1,2) even_body_val start_state_fields(1)]
    by (simp add: point_def start_state_fields)
  show "point ((even_body c s ^^ k) (start_state buf 1 0)) (2 * m + 1) =
     (rot c s ^^ (m + 1)) (1, 0)" if "m < k"
    unfolding ip(1) [OF start_state_fields(1) that]
    by (simp add: start_state_fields even_val_def)
  show "point ((even_body c s ^^ k) (start_state buf 1 0)) (2 * m + 2) =
     flipy ((rot c s ^^ (m + 1)) (1, 0))" if "m < k"
    unfolding ip(2) [OF start_state_fields(1) that]
    by (simp add: start_state_fields even_val_def flipy_def)
qed

lemma even_run_points:
  assumes "n mod 2 = 0" "0 < n"
  shows "point (even_run c s n buf) 0 = (1, 0)"
    and "point (even_run c s n buf) (n - 1) = (- 1, 0)"
    and "m < n div 2 - 1 \<Longrightarrow> point (even_run c s n buf) (2 * m + 1) = (rot c s ^^ (m + 1)) (1, 0)"
    and "m < n div 2 - 1 \<Longrightarrow>
           point (even_run c s n buf) (2 * m + 2) = flipy ((rot c s ^^ (m + 1)) (1, 0))"
proof -
  let ?S = "(even_body c s ^^ (n div 2 - 1)) (start_state buf 1 0)"
  have a: "arrayIndex ?S = 2 + 4 * (n div 2 - 1)"
    by (simp add: iter_arrayIndex [where body = "even_body c s"] even_body_fields start_state_fields)
  have l: "2 + 4 * (n div 2 - 1) = 2 * (n - 1)" using assms by arith
  have low: "point (last_point ?S) k = point ?S k" if "2 * k + 1 < 2 + 4 * (n div 2 - 1)" for k
    by (rule last_point_points(1)) (use that a in simp)
  show "point (even_run c s n buf) 0 = (1, 0)"
  proof -
    have "2 * 0 + 1 < 2 + 4 * (n div 2 - 1)" by simp
    from low [OF this] show ?thesis
      unfolding even_run_def by (simp only: even_iter_points(1))
  qed
  show "point (even_run c s n buf) (n - 1) = (- 1, 0)"
    unfolding even_run_def by (rule last_point_points(2)) (simp only: a l)
  show "point (even_run c s n buf) (2 * m + 1) = (rot c s ^^ (m + 1)) (1, 0)" if "m < n div 2 - 1"
  proof -
    have "2 * (2 * m + 1) + 1 < 2 + 4 * (n div 2 - 1)" using that by simp
    from low [OF this] show ?thesis
      unfolding even_run_def by (simp only: even_iter_points(2) [OF that])
  qed
  show "point (even_run c s n buf) (2 * m + 2) = flipy ((rot c s ^^ (m + 1)) (1, 0))"
    if "m < n div 2 - 1"
  proof -
    have "2 * (2 * m + 2) + 1 < 2 + 4 * (n div 2 - 1)" using that by simp
    from low [OF this] show ?thesis
      unfolding even_run_def by (simp only: even_iter_points(3) [OF that])
  qed
qed

lemma sub_lt:
  fixes r q t :: nat
  assumes "t < r" "r \<le> q"
  shows "r - t - 1 < q"
  using assms by arith

lemma index_facts:
  fixes h q r t :: nat
  assumes "q + r = h - 1" "0 < h" "t < r"
  shows "r - t \<le> h" "h - (r - t) = q + t + 1" "r - t - 1 + 1 = r - t"
  using assms by arith+

lemma mirror_iter_points:
  assumes a: "arrayIndex st = 2 + 4 * q" and rq: "r \<le> q"
  shows "2 * k + 1 < 2 + 4 * q \<Longrightarrow> point (mirror_iter (2 * int r - 1) st) k = point st k"
    and "t < r \<Longrightarrow> point (mirror_iter (2 * int r - 1) st) (2 * (q + t) + 1) =
           flipx (point st (2 * (r - t - 1) + 1))"
    and "t < r \<Longrightarrow> point (mirror_iter (2 * int r - 1) st) (2 * (q + t) + 2) =
           flipy (flipx (point st (2 * (r - t - 1) + 1)))"
proof -
  have pre: "(2 * int r - 1) * 2 + 1 < int (arrayIndex st)"
    unfolding a using rq by simp
  note P = mirror_iter_pointsOut [OF pre, unfolded mirror_iter_odd_start a]
  show "point (mirror_iter (2 * int r - 1) st) k = point st k" if "2 * k + 1 < 2 + 4 * q"
    unfolding point_def P using that by simp
  assume t: "t < r"
  have src: "nat (2 * (2 * int r - 1 - 2 * int t)) = 2 * (2 * (r - t - 1) + 1)"
    "nat (2 * (2 * int r - 1 - 2 * int t) + 1) = 2 * (2 * (r - t - 1) + 1) + 1"
    using t by (simp_all add: nat_eq_iff of_nat_diff)
  have e: "2 * (2 * (q + t) + 1) = 2 + 4 * q + (4 * t + 0)"
    "2 + 4 * q + (4 * t + 0) + 1 = 2 + 4 * q + (4 * t + 1)"
    "2 * (2 * (q + t) + 2) = 2 + 4 * q + (4 * t + 2)"
    "2 + 4 * q + (4 * t + 2) + 1 = 2 + 4 * q + (4 * t + 3)"
    by simp_all
  have rng: "2 + 4 * q \<le> 2 + 4 * q + (4 * t + \<rho>) \<and> 2 + 4 * q + (4 * t + \<rho>) < 2 + 4 * q + 4 * r"
    if "\<rho> < 4" for \<rho>
    using t that by simp
  have d: "(2 + 4 * q + (4 * t + \<rho>) - (2 + 4 * q)) div 4 = t"
    "(2 + 4 * q + (4 * t + \<rho>) - (2 + 4 * q)) mod 4 = \<rho>" if "\<rho> < 4" for \<rho>
    using dm4 [OF that, of t] by simp_all
  have v: "pointsOut (mirror_iter (2 * int r - 1) st) (2 + 4 * q + (4 * t + \<rho>)) =
      mirror_val (point st (2 * (r - t - 1) + 1)) \<rho>" if "\<rho> < 4" for \<rho>
    unfolding P point_def
    by (simp only: rng [OF that] d [OF that] src simp_thms if_True)
  have v0: "pointsOut (mirror_iter (2 * int r - 1) st) (2 + 4 * q + (4 * t + 0)) =
      mirror_val (point st (2 * (r - t - 1) + 1)) 0" by (rule v) simp
  have v1: "pointsOut (mirror_iter (2 * int r - 1) st) (2 + 4 * q + (4 * t + 1)) =
      mirror_val (point st (2 * (r - t - 1) + 1)) 1" by (rule v) simp
  have v2: "pointsOut (mirror_iter (2 * int r - 1) st) (2 + 4 * q + (4 * t + 2)) =
      mirror_val (point st (2 * (r - t - 1) + 1)) 2" by (rule v) simp
  have v3: "pointsOut (mirror_iter (2 * int r - 1) st) (2 + 4 * q + (4 * t + 3)) =
      mirror_val (point st (2 * (r - t - 1) + 1)) 3" by (rule v) simp
  show "point (mirror_iter (2 * int r - 1) st) (2 * (q + t) + 1) =
           flipx (point st (2 * (r - t - 1) + 1))"
    unfolding point_def [of _ "2 * (q + t) + 1"] e v0 v1
    by (simp add: mirror_val_def flipx_def)
  show "point (mirror_iter (2 * int r - 1) st) (2 * (q + t) + 2) =
           flipy (flipx (point st (2 * (r - t - 1) + 1)))"
    unfolding point_def [of _ "2 * (q + t) + 2"] e v2 v3
    by (simp add: mirror_val_def flipx_def flipy_def)
qed

lemma flip_flip: "flipy (flipx p) = flipx (flipy p)"
  by (simp add: flipx_def flipy_def)

lemma even_run2_points:
  assumes "n mod 2 = 0" "0 < n"
    and c: "c\<^sup>2 + s\<^sup>2 = 1" and h: "(rot c s ^^ (n div 2)) (1, 0) = (- 1, 0)"
  shows "point (even_run2 c s n buf) 0 = (1, 0)"
    and "point (even_run2 c s n buf) (n - 1) = (- 1, 0)"
    and "m < n div 2 - 1 \<Longrightarrow> point (even_run2 c s n buf) (2 * m + 1) = (rot c s ^^ (m + 1)) (1, 0)"
    and "m < n div 2 - 1 \<Longrightarrow>
           point (even_run2 c s n buf) (2 * m + 2) = flipy ((rot c s ^^ (m + 1)) (1, 0))"
proof -
  let ?q = "n div 2 div 2"
  let ?r = "n div 2 - 1 - n div 2 div 2"
  let ?F = "first_pass c s n buf"
  let ?M = "mirror_iter (2 * int ?r - 1) ?F"
  have run: "even_run2 c s n buf = last_point ?M"
    unfolding even_run2_def startIndex_eq [OF assms(1,2)] ..
  note pa = passes_add [OF assms(1,2)]
  have hp: "0 < n div 2" using assms(1,2) by arith
  have aF: "arrayIndex ?F = 2 + 4 * ?q" by (rule first_pass_arrayIndex)
  note mp = mirror_iter_points [OF aF pa(2)]
  have aM: "arrayIndex ?M = 2 + 4 * (n div 2 - 1)"
    using even_run2_arrayIndex [OF assms(1,2), of c s buf] unfolding run
    by (simp add: last_point_fields)
  have l: "2 + 4 * (n div 2 - 1) = 2 * (n - 1)" using assms(1,2) by arith
  have low: "point (last_point ?M) k = point ?M k" if "2 * k + 1 < 2 + 4 * (n div 2 - 1)" for k
    by (rule last_point_points(1)) (use that aM in simp)
  have F0: "point ?F 0 = (1, 0)"
    unfolding first_pass_def by (rule even_iter_points(1))
  have F1: "point ?F (2 * m + 1) = (rot c s ^^ (m + 1)) (1, 0)" if "m < ?q" for m
    unfolding first_pass_def by (rule even_iter_points(2) [OF that])
  have F2: "point ?F (2 * m + 2) = flipy ((rot c s ^^ (m + 1)) (1, 0))" if "m < ?q" for m
    unfolding first_pass_def by (rule even_iter_points(3) [OF that])
  show "point (even_run2 c s n buf) 0 = (1, 0)"
  proof -
    have "2 * 0 + 1 < 2 + 4 * (n div 2 - 1)" "2 * 0 + 1 < 2 + 4 * ?q" by simp_all
    from low [OF this(1)] mp(1) [OF this(2)] F0 show ?thesis
      unfolding run by simp
  qed
  show "point (even_run2 c s n buf) (n - 1) = (- 1, 0)"
    unfolding run by (rule last_point_points(2)) (simp only: aM l)
  have M1: "point ?M (2 * m + 1) = (rot c s ^^ (m + 1)) (1, 0)" if "m < n div 2 - 1" for m
  proof (cases "m < ?q")
    case True
    then have "2 * (2 * m + 1) + 1 < 2 + 4 * ?q" by simp
    from mp(1) [OF this] F1 [OF True] show ?thesis by simp
  next
    case False
    define t where "t = m - ?q"
    have m: "m = ?q + t" using False unfolding t_def by simp
    have t: "t < ?r" using that pa(1) unfolding m by simp
    then have src: "?r - t - 1 < ?q" using pa(2) by (rule sub_lt)
    note k = index_facts [OF pa(1) hp t, folded m]
    have "point ?M (2 * m + 1) = flipx ((rot c s ^^ (?r - t)) (1, 0))"
      unfolding m mp(2) [OF t] F1 [OF src] k(3) ..
    also have "\<dots> = (rot c s ^^ (n div 2 - (?r - t))) (1, 0)"
      by (rule rot_half_turn [OF c h k(1), symmetric])
    finally show ?thesis unfolding k(2) .
  qed
  have M2: "point ?M (2 * m + 2) = flipy ((rot c s ^^ (m + 1)) (1, 0))" if "m < n div 2 - 1" for m
  proof (cases "m < ?q")
    case True
    then have "2 * (2 * m + 2) + 1 < 2 + 4 * ?q" by simp
    from mp(1) [OF this] F2 [OF True] show ?thesis by simp
  next
    case False
    define t where "t = m - ?q"
    have m: "m = ?q + t" using False unfolding t_def by simp
    have t: "t < ?r" using that pa(1) unfolding m by simp
    then have src: "?r - t - 1 < ?q" using pa(2) by (rule sub_lt)
    note k = index_facts [OF pa(1) hp t, folded m]
    have "point ?M (2 * m + 2) = flipy (flipx ((rot c s ^^ (?r - t)) (1, 0)))"
      unfolding m mp(3) [OF t] F1 [OF src] k(3) ..
    also have "flipx ((rot c s ^^ (?r - t)) (1, 0)) = (rot c s ^^ (n div 2 - (?r - t))) (1, 0)"
      by (rule rot_half_turn [OF c h k(1), symmetric])
    finally show ?thesis unfolding k(2) .
  qed
  show "point (even_run2 c s n buf) (2 * m + 1) = (rot c s ^^ (m + 1)) (1, 0)" if "m < n div 2 - 1"
  proof -
    have "2 * (2 * m + 1) + 1 < 2 + 4 * (n div 2 - 1)" using that by simp
    from low [OF this] M1 [OF that] show ?thesis unfolding run by simp
  qed
  show "point (even_run2 c s n buf) (2 * m + 2) = flipy ((rot c s ^^ (m + 1)) (1, 0))"
    if "m < n div 2 - 1"
  proof -
    have "2 * (2 * m + 2) + 1 < 2 + 4 * (n div 2 - 1)" using that by simp
    from low [OF this] M2 [OF that] show ?thesis unfolding run by simp
  qed
qed

section \<open>Closed form of the emitted vertices\<close>

lemma vertex_cases:
  fixes k :: nat
  assumes "0 < k"
  obtains (odd) m where "k = 2 * m + 1" | (even) m where "k = 2 * m + 2"
proof (cases "odd k")
  case True
  then obtain m where "k = 2 * m + 1" by (auto elim: oddE)
  then show ?thesis by (rule odd)
next
  case False
  then obtain m' where m': "k = 2 * m'" by (auto elim: evenE)
  with assms have "0 < m'" by simp
  then have "k = 2 * (m' - 1) + 2" using m' by simp
  then show ?thesis by (rule even)
qed

lemma odd_run_point:
  assumes "IsOdd n" "k < n"
  shows "point (odd_run c s n buf) k = odd_point c s k"
proof (cases "k = 0")
  case True
  then show ?thesis by (simp add: odd_run_points(1) odd_point_def)
next
  case False
  then have "0 < k" by simp
  then show ?thesis
  proof (cases rule: vertex_cases)
    case (odd m)
    have "m < n div 2" using assms(2) unfolding odd by simp
    from odd_run_points(2) [OF this] show ?thesis
      unfolding odd by (simp add: odd_point_def)
  next
    case (even m)
    have "2 * m + 2 < 2 * (n div 2) + 1" using assms unfolding even IsOdd_def by simp
    then have "m < n div 2" by simp
    from odd_run_points(3) [OF this] show ?thesis
      unfolding even by (simp add: odd_point_def)
  qed
qed

lemma even_point_eq:
  assumes "n mod 2 = 0" "0 < n" "k < n"
    and p0: "point st 0 = (1, 0)" and pl: "point st (n - 1) = (- 1, 0)"
    and p1: "\<And>m. m < n div 2 - 1 \<Longrightarrow> point st (2 * m + 1) = (rot c s ^^ (m + 1)) (1, 0)"
    and p2: "\<And>m. m < n div 2 - 1 \<Longrightarrow> point st (2 * m + 2) = flipy ((rot c s ^^ (m + 1)) (1, 0))"
  shows "point st k = even_point c s n k"
proof -
  have n: "n = 2 * (n div 2)" using assms(1) by arith
  consider "k = 0" | "k = n - 1" "k \<noteq> 0" | "0 < k" "k \<noteq> n - 1" by blast
  then show ?thesis
  proof cases
    case 1
    then show ?thesis by (simp add: p0 even_point_def)
  next
    case 2
    with pl show ?thesis by (simp add: even_point_def)
  next
    case 3
    from 3(1) show ?thesis
    proof (cases rule: vertex_cases)
      case (odd m)
      have "2 * m + 1 < 2 * (n div 2) - 1" using assms(3) 3(2) n unfolding odd by arith
      then have "m < n div 2 - 1" by simp
      from p1 [OF this] 3(2) show ?thesis
        unfolding odd by (simp add: even_point_def)
    next
      case (even m)
      have "2 * m + 2 < 2 * (n div 2)" using assms(3) n unfolding even by simp
      then have "m < n div 2 - 1" by simp
      from p2 [OF this] 3(2) show ?thesis
        unfolding even by (simp add: even_point_def)
    qed
  qed
qed

lemma even_run_point:
  assumes "n mod 2 = 0" "0 < n" "k < n"
  shows "point (even_run c s n buf) k = even_point c s n k"
  by (rule even_point_eq [OF assms even_run_points [OF assms(1,2)]])

lemma even_run2_point:
  assumes "n mod 2 = 0" "0 < n" "k < n"
    and "c\<^sup>2 + s\<^sup>2 = 1" and "(rot c s ^^ (n div 2)) (1, 0) = (- 1, 0)"
  shows "point (even_run2 c s n buf) k = even_point c s n k"
  by (rule even_point_eq [OF assms(1,2,3) even_run2_points [OF assms(1,2,4,5)]])

lemma points_cong:
  assumes "\<And>k. k < n \<Longrightarrow> point st k = f k"
  shows "points n st = map f [0..<n]"
  unfolding points_def using assms by simp

lemma point_asserted [simp]: "point (st\<lparr>asserted := b\<rparr>) k = point st k"
  by (simp add: point_def)

lemma points_asserted [simp]: "points n (st\<lparr>asserted := b\<rparr>) = points n st"
  by (simp add: points_def)

section \<open>Unit norm and agreement of the even branches\<close>

lemma sqnorm_flip [simp]: "sqnorm (flipx p) = sqnorm p" "sqnorm (flipy p) = sqnorm p"
  by (simp_all add: sqnorm_def flipx_def flipy_def)

lemma sqnorm_base: "sqnorm (0, 1) = 1" "sqnorm (1, 0) = 1" "sqnorm (- 1, 0) = 1"
  by (simp_all add: sqnorm_def)

lemma sqnorm_odd_point:
  assumes "c\<^sup>2 + s\<^sup>2 = 1"
  shows "sqnorm (odd_point c s k) = 1"
  by (simp add: odd_point_def sqnorm_rot [OF assms] sqnorm_rot_funpow [OF assms] sqnorm_base)

lemma sqnorm_even_point:
  assumes "c\<^sup>2 + s\<^sup>2 = 1"
  shows "sqnorm (even_point c s n k) = 1"
  by (simp add: even_point_def sqnorm_rot [OF assms] sqnorm_rot_funpow [OF assms] sqnorm_base)

lemma even_facts:
  assumes "\<not> IsOdd n" "1 \<le> n"
  shows "n mod 2 = 0" "0 < n"
  using assms unfolding IsOdd_def by arith+

lemma fits32: "n < 2 ^ 31 + 6 \<Longrightarrow> n < (2::nat) ^ 32"
  by simp

text \<open>
  The unit norm of the emitted pairs where the read index does not overflow. For every
  \<open>n \<ge> 1\<close>, every winding flag and every vertex \<open>k < n\<close>, the pair that \<^verbatim>\<open>CreateCircle\<close>
  leaves at vertex \<open>k\<close> satisfies \<open>x\<^sup>2 + y\<^sup>2 = 1\<close> in exact real arithmetic, and so does the
  pair of \<^verbatim>\<open>CreateCircle2\<close> when \<open>n\<close> is odd or \<open>n < 2 ^ 31 + 6\<close>; one step of the rotation
  recurrence with the cosine and sine of the angle increment preserves \<open>x\<^sup>2 + y\<^sup>2\<close>.
\<close>

theorem emitted_points_on_unit_circle:
  assumes "1 \<le> n" and "n < 2 ^ 32" and "k < n"
  shows "(\<exists>st. CreateCircle n (Some buf) cw = Inr st \<and>
            (fst (point st k))\<^sup>2 + (snd (point st k))\<^sup>2 = 1) \<and>
         (IsOdd n \<or> n < 2 ^ 31 + 6 \<longrightarrow>
           (\<exists>st. CreateCircle2 n (Some buf) cw = Inr st \<and>
             (fst (point st k))\<^sup>2 + (snd (point st k))\<^sup>2 = 1)) \<and>
         (\<forall>p. (fst (rot (cosIncr n cw) (sinIncr n cw) p))\<^sup>2 +
               (snd (rot (cosIncr n cw) (sinIncr n cw) p))\<^sup>2 = (fst p)\<^sup>2 + (snd p)\<^sup>2)"
proof -
  let ?c = "cosIncr n cw" and ?s = "sinIncr n cw"
  note cs = cos_sin_incr [of n cw]
  have rotn: "\<forall>p. (fst (rot ?c ?s p))\<^sup>2 + (snd (rot ?c ?s p))\<^sup>2 = (fst p)\<^sup>2 + (snd p)\<^sup>2"
    using sqnorm_rot [OF cs] by (simp add: sqnorm_def)
  show ?thesis
  proof (cases "IsOdd n")
    case True
    have "sqnorm (point (odd_run ?c ?s n buf) k) = 1"
      unfolding odd_run_point [OF True assms(3)] by (rule sqnorm_odd_point [OF cs])
    then show ?thesis
      unfolding CreateCircle_odd [OF True] CreateCircle2_odd [OF True]
      using rotn by (simp add: sqnorm_def)
  next
    case False
    note e = even_facts [OF False assms(1)]
    have 1: "sqnorm (point (even_run ?c ?s n buf) k) = 1"
      unfolding even_run_point [OF e assms(3)] by (rule sqnorm_even_point [OF cs])
    have 2: "sqnorm (point (even_run2 ?c ?s n buf) k) = 1"
      unfolding even_run2_point [OF e assms(3) cs half_turn_incr [OF e]]
      by (rule sqnorm_even_point [OF cs])
    have 3: "\<exists>st. CreateCircle2 n (Some buf) cw = Inr st \<and>
             (fst (point st k))\<^sup>2 + (snd (point st k))\<^sup>2 = 1" if "n < 2 ^ 31 + 6"
      unfolding CreateCircle2_even [OF False startIndex_fits [OF that]]
      using 2 by (simp add: sqnorm_def)
    show ?thesis
      unfolding CreateCircle_even [OF False e(2) assms(2)]
      using 1 3 False rotn by (simp add: sqnorm_def)
  qed
qed

theorem emitted_points_on_unit_circle_witness:
  "(1::nat) \<le> 6 \<and> (6::nat) < 2 ^ 32 \<and> (4::nat) < 6 \<and>
   (\<exists>st. CreateCircle 6 (Some zero_buffer) False = Inr st \<and>
            (fst (point st 4))\<^sup>2 + (snd (point st 4))\<^sup>2 = 1) \<and>
   (\<exists>st. CreateCircle2 6 (Some zero_buffer) False = Inr st \<and>
            (fst (point st 4))\<^sup>2 + (snd (point st 4))\<^sup>2 = 1)"
  using emitted_points_on_unit_circle [of 6 4 zero_buffer False] by simp

text \<open>
  Claim C2, at the input \<open>n = 2 ^ 31 + 6\<close> of \<^verbatim>\<open>CreateCircle2\<close> (here with
  \<open>clockwise = false\<close>). The read index \<^verbatim>\<open>i * 2\<close> of the second pass overflows, so the
  pairs of the left half are not computed from points of the first pass and the call
  does not deliver a buffer of points on the circle.
\<close>

theorem no_points_after_index_overflow:
  "CreateCircle2 2147483654 (Some zero_buffer) False = Inl SignedOverflow"
proof -
  have e: "\<not> IsOdd 2147483654" by (simp add: IsOdd_def)
  have "startIndex 2147483654 * 2 > INT_MAX"
    by (simp add: startIndex_def INT_MAX_def)
  then show ?thesis
    by (rule CreateCircle2_overflow [OF e])
qed

lemma even_variants_same_points:
  assumes "n mod 2 = 0" and "2 \<le> n" and "n < 2 ^ 31 + 6"
  shows "\<exists>st1 st2. CreateCircle n (Some buf) cw = Inr st1 \<and>
           CreateCircle2 n (Some buf) cw = Inr st2 \<and> points n st2 = points n st1"
proof -
  let ?c = "cosIncr n cw" and ?s = "sinIncr n cw"
  have e: "\<not> IsOdd n" using assms(1) by (simp add: IsOdd_def)
  have p: "0 < n" using assms(2) by simp
  note cs = cos_sin_incr [of n cw]
  have "points n (even_run2 ?c ?s n buf) = map (even_point ?c ?s n) [0..<n]"
    by (rule points_cong) (rule even_run2_point [OF assms(1) p _ cs half_turn_incr [OF assms(1) p]])
  moreover have "points n (even_run ?c ?s n buf) = map (even_point ?c ?s n) [0..<n]"
    by (rule points_cong) (rule even_run_point [OF assms(1) p])
  ultimately show ?thesis
    unfolding CreateCircle_even [OF e p fits32 [OF assms(3)]]
      CreateCircle2_even [OF e startIndex_fits [OF assms(3)]]
    by simp
qed

text \<open>
  The two even branches where the read index does not overflow. For every even \<open>n\<close>
  with \<open>2 \<le> n < 2 ^ 31 + 6\<close> and every winding flag both generators complete and the
  multiset of the \<open>n\<close> points of \<^verbatim>\<open>CreateCircle2\<close> is the multiset of the \<open>n\<close> points of
  \<^verbatim>\<open>CreateCircle\<close> (by \<open>even_variants_same_points\<close> even the sequences agree).
\<close>

theorem even_variants_same_multiset:
  assumes "n mod 2 = 0" and "2 \<le> n" and "n < 2 ^ 31 + 6"
  shows "\<exists>st1 st2. CreateCircle n (Some buf) cw = Inr st1 \<and>
           CreateCircle2 n (Some buf) cw = Inr st2 \<and>
           mset (points n st2) = mset (points n st1)"
  using even_variants_same_points [OF assms, of buf cw] by auto

theorem even_variants_same_multiset_witness:
  "(8::nat) mod 2 = 0 \<and> (2::nat) \<le> 8 \<and> (8::nat) < 2 ^ 31 + 6 \<and>
   (\<exists>st1 st2. CreateCircle 8 (Some zero_buffer) True = Inr st1 \<and>
           CreateCircle2 8 (Some zero_buffer) True = Inr st2 \<and>
           mset (points 8 st2) = mset (points 8 st1))"
  using even_variants_same_multiset [of 8 zero_buffer True] by simp

text \<open>
  Claim C3, at the input \<open>n = 2 ^ 31 + 6\<close>. \<^verbatim>\<open>CreateCircle\<close> completes, while the read
  index of \<^verbatim>\<open>CreateCircle2\<close> overflows: the quarter-symmetry variant does not deliver the
  points that the half-symmetry variant emits.
\<close>

theorem quarter_variant_fails_where_half_variant_returns:
  "\<not> isl (CreateCircle 2147483654 (Some zero_buffer) True) \<and>
   CreateCircle2 2147483654 (Some zero_buffer) True = Inl SignedOverflow"
proof -
  have e: "\<not> IsOdd 2147483654" by (simp add: IsOdd_def)
  have "startIndex 2147483654 * 2 > INT_MAX"
    by (simp add: startIndex_def INT_MAX_def)
  from CreateCircle2_overflow [OF e this] show ?thesis
    by (simp add: CreateCircle_def Let_def)
qed

section \<open>Reversing the winding flag\<close>

lemma odd_point_simps:
  "odd_point c s 0 = (0, 1)"
  "odd_point c s (2 * m + 1) = (rot c s ^^ (m + 1)) (0, 1)"
  "odd_point c s (2 * m + 2) = flipx ((rot c s ^^ (m + 1)) (0, 1))"
  by (simp_all add: odd_point_def)

lemma even_point_simps:
  "even_point c s n 0 = (1, 0)"
  "1 < n \<Longrightarrow> even_point c s n (n - 1) = (- 1, 0)"
  "2 * m + 1 \<noteq> n - 1 \<Longrightarrow> even_point c s n (2 * m + 1) = (rot c s ^^ (m + 1)) (1, 0)"
  "2 * m + 2 \<noteq> n - 1 \<Longrightarrow> even_point c s n (2 * m + 2) = flipy ((rot c s ^^ (m + 1)) (1, 0))"
  by (simp_all add: even_point_def)

lemma flip_fixed: "flipx (0, 1) = (0, 1)" "flipy (1, 0) = (1, 0)"
  by (simp_all add: flipx_def flipy_def)

lemma flip_involution: "flipx (flipx p) = p" "flipy (flipy p) = p"
  by (simp_all add: flipx_def flipy_def)

lemma rot_neg_odd: "(rot c (- s) ^^ j) (0, 1) = flipx ((rot c s ^^ j) (0, 1))"
  using rot_flipx_funpow [where p = "(0, 1)"] by (simp only: flip_fixed)

lemma rot_neg_even: "(rot c (- s) ^^ j) (1, 0) = flipy ((rot c s ^^ j) (1, 0))"
  using rot_flipy_funpow [where p = "(1, 0)"] by (simp only: flip_fixed)

lemma odd_point_flip:
  assumes "IsOdd n" "k < n"
  shows "\<exists>k'<n. odd_point c (- s) k = odd_point c s k'"
proof (cases "k = 0")
  case True
  with assms(2) show ?thesis by (auto simp: odd_point_simps(1))
next
  case False
  then have "0 < k" by simp
  then show ?thesis
  proof (cases rule: vertex_cases)
    case (odd m)
    have "2 * m + 2 < n" using assms unfolding odd IsOdd_def by arith
    moreover have "odd_point c (- s) k = odd_point c s (2 * m + 2)"
      unfolding odd odd_point_simps rot_neg_odd ..
    ultimately show ?thesis by blast
  next
    case (even m)
    have "2 * m + 1 < n" using assms unfolding even by simp
    moreover have "odd_point c (- s) k = odd_point c s (2 * m + 1)"
      unfolding even odd_point_simps rot_neg_odd flip_involution ..
    ultimately show ?thesis by blast
  qed
qed

lemma even_point_flip:
  assumes "n mod 2 = 0" "k < n"
  shows "\<exists>k'<n. even_point c (- s) n k = even_point c s n k'"
proof -
  consider "k = 0" | "k = n - 1" "k \<noteq> 0" | "0 < k" "k \<noteq> n - 1" by blast
  then show ?thesis
  proof cases
    case 1
    with assms(2) show ?thesis by (auto simp: even_point_simps(1))
  next
    case 2
    have "1 < n" using 2 by simp
    then have "even_point c (- s) n (n - 1) = even_point c s n (n - 1)"
      by (simp only: even_point_simps(2))
    with assms(2) 2 show ?thesis by blast
  next
    case 3
    from 3(1) show ?thesis
    proof (cases rule: vertex_cases)
      case (odd m)
      have l: "2 * m + 2 < n" "2 * m + 2 \<noteq> n - 1" "2 * m + 1 \<noteq> n - 1"
        using assms 3(2) unfolding odd by arith+
      have "even_point c (- s) n k = even_point c s n (2 * m + 2)"
        unfolding odd even_point_simps(3) [OF l(3)] even_point_simps(4) [OF l(2)] rot_neg_even ..
      with l(1) show ?thesis by blast
    next
      case (even m)
      have l: "2 * m + 1 < n" "2 * m + 1 \<noteq> n - 1" "2 * m + 2 \<noteq> n - 1"
        using assms 3(2) unfolding even by arith+
      have "even_point c (- s) n k = even_point c s n (2 * m + 1)"
        unfolding even even_point_simps(3) [OF l(2)] even_point_simps(4) [OF l(3)] rot_neg_even
          flip_involution ..
      with l(1) show ?thesis by blast
    qed
  qed
qed

lemma odd_points_flip:
  assumes "IsOdd n"
  shows "set (map (odd_point c (- s)) [0..<n]) = set (map (odd_point c s) [0..<n])"
proof -
  have "set (map (odd_point c (- t)) [0..<n]) \<subseteq> set (map (odd_point c t) [0..<n])" for t
  proof
    fix p
    assume "p \<in> set (map (odd_point c (- t)) [0..<n])"
    then obtain k where k: "k < n" "p = odd_point c (- t) k" by auto
    from odd_point_flip [OF assms k(1)] obtain k' where "k' < n" "p = odd_point c t k'"
      unfolding k(2) by blast
    then show "p \<in> set (map (odd_point c t) [0..<n])" by simp
  qed
  from this [of s] this [of "- s"] show ?thesis by simp
qed

lemma even_points_flip:
  assumes "n mod 2 = 0"
  shows "set (map (even_point c (- s) n) [0..<n]) = set (map (even_point c s n) [0..<n])"
proof -
  have "set (map (even_point c (- t) n) [0..<n]) \<subseteq> set (map (even_point c t n) [0..<n])" for t
  proof
    fix p
    assume "p \<in> set (map (even_point c (- t) n) [0..<n])"
    then obtain k where k: "k < n" "p = even_point c (- t) n k" by auto
    from even_point_flip [OF assms k(1)] obtain k' where "k' < n" "p = even_point c t n k'"
      unfolding k(2) by blast
    then show "p \<in> set (map (even_point c t n) [0..<n])" by simp
  qed
  from this [of s] this [of "- s"] show ?thesis by simp
qed

lemma odd_run_points_list:
  "IsOdd n \<Longrightarrow> points n (odd_run c s n buf) = map (odd_point c s) [0..<n]"
  by (rule points_cong) (rule odd_run_point)

lemma even_run_points_list:
  "n mod 2 = 0 \<Longrightarrow> 0 < n \<Longrightarrow> points n (even_run c s n buf) = map (even_point c s n) [0..<n]"
  by (rule points_cong) (rule even_run_point)

lemma even_run2_points_list:
  assumes "n mod 2 = 0" "0 < n"
  shows "points n (even_run2 (cosIncr n cw) (sinIncr n cw) n buf) =
           map (even_point (cosIncr n cw) (sinIncr n cw) n) [0..<n]"
  by (rule points_cong)
    (rule even_run2_point [OF assms _ cos_sin_incr half_turn_incr [OF assms]])

text \<open>
  Reversing the winding flag where the read index does not overflow. For every
  \<open>n \<ge> 1\<close> the set of points that \<^verbatim>\<open>CreateCircle\<close> emits with \<open>clockwise = true\<close> is the
  set it emits with \<open>clockwise = false\<close>, and the same holds for \<^verbatim>\<open>CreateCircle2\<close> when
  \<open>n\<close> is odd or \<open>n < 2 ^ 31 + 6\<close>; the flag negates the sine of the increment and keeps
  its cosine.
\<close>

theorem winding_flag_same_point_set:
  assumes "1 \<le> n" and "n < 2 ^ 32"
  shows "(\<exists>a b. CreateCircle n (Some buf) True = Inr a \<and>
                 CreateCircle n (Some buf) False = Inr b \<and>
                 set (points n a) = set (points n b)) \<and>
         (IsOdd n \<or> n < 2 ^ 31 + 6 \<longrightarrow>
            (\<exists>a b. CreateCircle2 n (Some buf) True = Inr a \<and>
                   CreateCircle2 n (Some buf) False = Inr b \<and>
                   set (points n a) = set (points n b))) \<and>
         cosIncr n False = cosIncr n True \<and> sinIncr n False = - sinIncr n True"
proof (cases "IsOdd n")
  case True
  have 1: "set (points n (odd_run (cosIncr n True) (sinIncr n True) n buf)) =
           set (points n (odd_run (cosIncr n False) (sinIncr n False) n buf))"
    unfolding odd_run_points_list [OF True] incr_flip odd_points_flip [OF True] ..
  show ?thesis
    unfolding CreateCircle_odd [OF True] CreateCircle2_odd [OF True]
    using 1 by (simp add: incr_flip)
next
  case False
  note e = even_facts [OF False assms(1)]
  have 1: "set (points n (even_run (cosIncr n True) (sinIncr n True) n buf)) =
           set (points n (even_run (cosIncr n False) (sinIncr n False) n buf))"
    unfolding even_run_points_list [OF e] incr_flip even_points_flip [OF e(1)] ..
  have 2: "set (points n (even_run2 (cosIncr n True) (sinIncr n True) n buf)) =
           set (points n (even_run2 (cosIncr n False) (sinIncr n False) n buf))"
    unfolding even_run2_points_list [OF e]
    unfolding incr_flip even_points_flip [OF e(1)] ..
  have 3: "\<exists>a b. CreateCircle2 n (Some buf) True = Inr a \<and>
                   CreateCircle2 n (Some buf) False = Inr b \<and>
                   set (points n a) = set (points n b)" if "n < 2 ^ 31 + 6"
    unfolding CreateCircle2_even [OF False startIndex_fits [OF that]]
    using 2 by simp
  show ?thesis
    unfolding CreateCircle_even [OF False e(2) assms(2)]
    using 1 3 False by (simp add: incr_flip)
qed

theorem winding_flag_same_point_set_witness:
  "(1::nat) \<le> 5 \<and> (5::nat) < 2 ^ 32 \<and>
   (\<exists>a b. CreateCircle 5 (Some zero_buffer) True = Inr a \<and>
                 CreateCircle 5 (Some zero_buffer) False = Inr b \<and>
                 set (points 5 a) = set (points 5 b)) \<and>
   (\<exists>a b. CreateCircle2 5 (Some zero_buffer) True = Inr a \<and>
                   CreateCircle2 5 (Some zero_buffer) False = Inr b \<and>
                   set (points 5 a) = set (points 5 b))"
  using winding_flag_same_point_set [of 5 zero_buffer] by (simp add: IsOdd_def)

text \<open>
  Claim C6, at the input \<open>n = 2 ^ 31 + 6\<close> of \<^verbatim>\<open>CreateCircle2\<close>. With either winding flag
  the read index of the second pass overflows, and neither call delivers a point set
  to compare.
\<close>

theorem both_windings_overflow:
  "CreateCircle2 2147483654 (Some zero_buffer) True = Inl SignedOverflow \<and>
   CreateCircle2 2147483654 (Some zero_buffer) False = Inl SignedOverflow"
proof -
  have e: "\<not> IsOdd 2147483654" by (simp add: IsOdd_def)
  have "startIndex 2147483654 * 2 > INT_MAX"
    by (simp add: startIndex_def INT_MAX_def)
  from CreateCircle2_overflow [OF e this] show ?thesis by simp
qed

text \<open>
  Claim C5. For every odd \<open>n\<close> and \<open>clockwise = true\<close>, \<^verbatim>\<open>CreateCircle\<close> leaves
  \<open>(0, 1)\<close> at vertex 0, and for each of the \<open>n div 2\<close> iterations \<open>i\<close> it leaves at
  vertex \<open>2i + 1\<close> the point reached by \<open>i + 1\<close> steps of the rotation recurrence from
  \<open>(0, 1)\<close>, which is \<open>(sin ((i+1) 2\<pi>/n), cos ((i+1) 2\<pi>/n))\<close>, and at vertex \<open>2i + 2\<close> its
  left-right mirror \<open>(-x, y)\<close>.
\<close>

theorem odd_strip_layout:
  assumes "IsOdd n"
  shows "\<exists>st. CreateCircle n (Some buf) True = Inr st \<and> point st 0 = (0, 1) \<and>
           (\<forall>i < n div 2.
              point st (2 * i + 1) = (rot (cosIncr n True) (sinIncr n True) ^^ (i + 1)) (0, 1) \<and>
              point st (2 * i + 1) =
                (sin (real (i + 1) * 2 * pi / real n), cos (real (i + 1) * 2 * pi / real n)) \<and>
              point st (2 * i + 2) = (- fst (point st (2 * i + 1)), snd (point st (2 * i + 1))))"
proof -
  let ?c = "cosIncr n True" and ?s = "sinIncr n True"
  have a: "real k * angle n True = real k * 2 * pi / real n" for k
    by (simp add: angle_def)
  have cl: "(rot ?c ?s ^^ k) (0, 1) = (sin (real k * 2 * pi / real n), cos (real k * 2 * pi / real n))"
    for k
    unfolding cosIncr_def sinIncr_def rot_closed_odd a ..
  let ?S = "odd_run ?c ?s n buf"
  let ?st = "?S\<lparr>asserted := (arrayIndex ?S = (n * 2) mod UINT_WRAP)\<rparr>"
  have p: "point ?st k = point ?S k" for k
    by (rule point_asserted)
  have "point ?S (2 * i + 1) = (rot ?c ?s ^^ (i + 1)) (0, 1) \<and>
        point ?S (2 * i + 1) =
          (sin (real (i + 1) * 2 * pi / real n), cos (real (i + 1) * 2 * pi / real n)) \<and>
        point ?S (2 * i + 2) = (- fst (point ?S (2 * i + 1)), snd (point ?S (2 * i + 1)))"
    if "i < n div 2" for i
    unfolding odd_run_points(2) [OF that] odd_run_points(3) [OF that] flipx_def
    using cl [of "i + 1"] by simp
  then have "point ?st 0 = (0, 1) \<and>
           (\<forall>i < n div 2.
              point ?st (2 * i + 1) = (rot ?c ?s ^^ (i + 1)) (0, 1) \<and>
              point ?st (2 * i + 1) =
                (sin (real (i + 1) * 2 * pi / real n), cos (real (i + 1) * 2 * pi / real n)) \<and>
              point ?st (2 * i + 2) = (- fst (point ?st (2 * i + 1)), snd (point ?st (2 * i + 1))))"
    unfolding p odd_run_points(1) by blast
  then show ?thesis
    unfolding CreateCircle_odd [OF assms] by blast
qed

theorem odd_strip_layout_witness:
  "IsOdd 5 \<and>
   (\<exists>st. CreateCircle 5 (Some zero_buffer) True = Inr st \<and> point st 0 = (0, 1) \<and>
           (\<forall>i < 5 div 2.
              point st (2 * i + 1) = (rot (cosIncr 5 True) (sinIncr 5 True) ^^ (i + 1)) (0, 1) \<and>
              point st (2 * i + 1) =
                (sin (real (i + 1) * 2 * pi / real 5), cos (real (i + 1) * 2 * pi / real 5)) \<and>
              point st (2 * i + 2) = (- fst (point st (2 * i + 1)), snd (point st (2 * i + 1)))))"
  using odd_strip_layout [of 5 zero_buffer] by (simp add: IsOdd_def)

end
